theory Spec2Isabelle
  imports Main
begin

section \<open>Data model\<close>

text \<open>
  The facade in \<^verbatim>\<open>lib/Index/IndexSystem.cpp\<close> works on symbols, symbol occurrences and
  role sets that are declared in headers outside the translated file. They are modelled
  here with exactly the attributes the facade reads.
\<close>

text \<open>Modelled from the spec: the closed enumeration of symbol kinds. Only three kinds
  are inspected by the facade; all others are opaque.\<close>

datatype SymbolKind = InstanceMethod | Protocol | Extension | OtherKind nat

text \<open>Modelled from the spec: the roles of an occurrence, and role sets as sets of roles.\<close>

datatype SymbolRole =
    Call
  | Dynamic
  | RelationChildOf
  | RelationBaseOf
  | RelationOverrideOf
  | RelationReceivedBy
  | RelationExtendedBy
  | OtherRole nat

type_synonym SymbolRoleSet = "SymbolRole set"

text \<open>Modelled from the spec: \<^verbatim>\<open>containsAny\<close> asks for a common role, \<^verbatim>\<open>contains\<close>
  asks for all of the given roles.\<close>

definition containsAny :: "SymbolRoleSet \<Rightarrow> SymbolRoleSet \<Rightarrow> bool" where
  "containsAny S T = (S \<inter> T \<noteq> {})"

definition contains :: "SymbolRoleSet \<Rightarrow> SymbolRoleSet \<Rightarrow> bool" where
  "contains S T = (T \<subseteq> S)"

text \<open>Modelled from the spec: a symbol is a handle with a USR, a kind and the
  callable predicate.\<close>

record Symbol =
  getUSR :: string
  getSymbolKind :: SymbolKind
  isCallable :: bool

text \<open>Modelled from the spec: an occurrence carries its symbol, its role set, and the
  related symbols, each tagged with the roles of the relation. The location only tells
  occurrences of one symbol apart.\<close>

record SymbolOccurrence =
  getSymbol :: Symbol
  getRoles :: SymbolRoleSet
  getRelations :: "(SymbolRoleSet \<times> Symbol) list"
  getLocation :: nat

text \<open>Every index query and every invocation of the caller's receiver is recorded, in
  order, so that statements about what was (not) queried or delivered can be made.\<close>

datatype Event =
    QueryOccurrences string SymbolRoleSet
  | QueryRelatedOccurrences string SymbolRoleSet
  | ReceiverCall SymbolOccurrence

text \<open>Modelled from the spec: the symbol sub-index is an external collaborator. For a USR
  and a role set it yields a sequence of occurrences.\<close>

record SymbolIndex =
  occurrencesByUSR :: "string \<Rightarrow> SymbolRoleSet \<Rightarrow> SymbolOccurrence list"
  relatedOccurrencesByUSR :: "string \<Rightarrow> SymbolRoleSet \<Rightarrow> SymbolOccurrence list"

section \<open>Iteration\<close>

text \<open>Iteration with receiver-driven early termination: the body returns whether to
  continue; the loop returns whether it ran to completion. It is the shape of the
  \<^verbatim>\<open>for (...) { if (!Continue) return false; } return true;\<close> iterations of the facade and
  (modelled from the spec) of every \<^verbatim>\<open>foreach\<close> enumeration of a sub-index. A body may
  fail to return (\<open>None\<close>); then so does the loop.\<close>

fun foreachUntilStop ::
  "'a list \<Rightarrow> ('a \<Rightarrow> 'st \<Rightarrow> (bool \<times> 'st) option) \<Rightarrow> 'st \<Rightarrow> (bool \<times> 'st) option" where
  "foreachUntilStop [] body st = Some (True, st)"
| "foreachUntilStop (x # xs) body st =
     (case body x st of
        None \<Rightarrow> None
      | Some (Continue, st') \<Rightarrow>
          if Continue then foreachUntilStop xs body st' else Some (False, st'))"

text \<open>Iteration without early termination (a range-\<^verbatim>\<open>for\<close> without \<^verbatim>\<open>return\<close>, or an
  enumeration into a \<^verbatim>\<open>void\<close> receiver).\<close>

fun foreachAll :: "'a list \<Rightarrow> ('a \<Rightarrow> 'st \<Rightarrow> 'st option) \<Rightarrow> 'st \<Rightarrow> 'st option" where
  "foreachAll [] body st = Some st"
| "foreachAll (x # xs) body st =
     (case body x st of None \<Rightarrow> None | Some st' \<Rightarrow> foreachAll xs body st')"

text \<open>Modelled from the spec: enumeration of the related symbols of an occurrence
  filtered by role.\<close>

definition relatedSymbols :: "SymbolOccurrence \<Rightarrow> SymbolRoleSet \<Rightarrow> Symbol list" where
  "relatedSymbols Occur Roles =
     map snd (filter (\<lambda>Rel. containsAny (fst Rel) Roles) (getRelations Occur))"

definition foreachRelatedSymbol ::
  "SymbolOccurrence \<Rightarrow> SymbolRoleSet \<Rightarrow> (Symbol \<Rightarrow> 'st \<Rightarrow> 'st option) \<Rightarrow> 'st \<Rightarrow> 'st option" where
  "foreachRelatedSymbol Occur Roles Receiver st =
     foreachAll (relatedSymbols Occur Roles) Receiver st"

section \<open>Queries forwarded to the symbol index\<close>

text \<open>Modelled from the spec: the enumerations of the symbol sub-index hand the yielded
  occurrences to the receiver in order and stop when the receiver returns \<open>False\<close>; the
  result tells whether the enumeration ran to completion.\<close>

definition SymbolIndex_foreachSymbolOccurrenceByUSR ::
  "SymbolIndex \<Rightarrow> string \<Rightarrow> SymbolRoleSet \<Rightarrow>
   (SymbolOccurrence \<Rightarrow> 'st \<times> Event list \<Rightarrow> (bool \<times> 'st \<times> Event list) option) \<Rightarrow>
   'st \<times> Event list \<Rightarrow> (bool \<times> 'st \<times> Event list) option" where
  "SymbolIndex_foreachSymbolOccurrenceByUSR Idx USR RoleSet Receiver w =
     foreachUntilStop (occurrencesByUSR Idx USR RoleSet) Receiver
       (fst w, snd w @ [QueryOccurrences USR RoleSet])"

definition SymbolIndex_foreachRelatedSymbolOccurrenceByUSR ::
  "SymbolIndex \<Rightarrow> string \<Rightarrow> SymbolRoleSet \<Rightarrow>
   (SymbolOccurrence \<Rightarrow> 'st \<times> Event list \<Rightarrow> (bool \<times> 'st \<times> Event list) option) \<Rightarrow>
   'st \<times> Event list \<Rightarrow> (bool \<times> 'st \<times> Event list) option" where
  "SymbolIndex_foreachRelatedSymbolOccurrenceByUSR Idx USR RoleSet Receiver w =
     foreachUntilStop (relatedOccurrencesByUSR Idx USR RoleSet) Receiver
       (fst w, snd w @ [QueryRelatedOccurrences USR RoleSet])"

text \<open>Modelled from the spec: the path sub-index, another external collaborator. It
  canonicalizes a path spelling and answers queries keyed by canonical paths.\<close>

datatype CanonicalFilePath = CanonicalFilePath string

record StoreUnitInfo =
  UnitName :: string
  MainFilePath :: CanonicalFilePath

record FilePathIndex =
  getCanonicalPath :: "string \<Rightarrow> CanonicalFilePath"
  knownFile :: "CanonicalFilePath \<Rightarrow> bool"
  mainUnitsContainingFile :: "CanonicalFilePath \<Rightarrow> StoreUnitInfo list"
  filesIncludingFile :: "CanonicalFilePath \<Rightarrow> (CanonicalFilePath \<times> nat) list"
  filesIncludedByFile :: "CanonicalFilePath \<Rightarrow> (CanonicalFilePath \<times> nat) list"

definition FilePathIndex_isKnownFile :: "FilePathIndex \<Rightarrow> CanonicalFilePath \<Rightarrow> bool" where
  "FilePathIndex_isKnownFile Idx canonPath = knownFile Idx canonPath"

definition FilePathIndex_foreachMainUnitContainingFile ::
  "FilePathIndex \<Rightarrow> CanonicalFilePath \<Rightarrow>
   (StoreUnitInfo \<Rightarrow> 'st \<Rightarrow> (bool \<times> 'st) option) \<Rightarrow> 'st \<Rightarrow> (bool \<times> 'st) option" where
  "FilePathIndex_foreachMainUnitContainingFile Idx canonPath receiver st =
     foreachUntilStop (mainUnitsContainingFile Idx canonPath) receiver st"

definition FilePathIndex_foreachFileIncludingFile ::
  "FilePathIndex \<Rightarrow> CanonicalFilePath \<Rightarrow>
   (CanonicalFilePath \<times> nat \<Rightarrow> 'st \<Rightarrow> (bool \<times> 'st) option) \<Rightarrow> 'st \<Rightarrow> (bool \<times> 'st) option" where
  "FilePathIndex_foreachFileIncludingFile Idx canonPath Receiver st =
     foreachUntilStop (filesIncludingFile Idx canonPath) Receiver st"

definition FilePathIndex_foreachFileIncludedByFile ::
  "FilePathIndex \<Rightarrow> CanonicalFilePath \<Rightarrow>
   (CanonicalFilePath \<times> nat \<Rightarrow> 'st \<Rightarrow> (bool \<times> 'st) option) \<Rightarrow> 'st \<Rightarrow> (bool \<times> 'st) option" where
  "FilePathIndex_foreachFileIncludedByFile Idx canonPath Receiver st =
     foreachUntilStop (filesIncludedByFile Idx canonPath) Receiver st"

section \<open>The facade\<close>

text \<open>Of the members of \<^verbatim>\<open>IndexSystemImpl\<close>, the queries translated here use the symbol
  sub-index and the path sub-index.\<close>

record IndexSystemImpl =
  SymIndex :: SymbolIndex
  PathIndex :: FilePathIndex

definition foreachSymbolOccurrenceByUSR ::
  "IndexSystemImpl \<Rightarrow> string \<Rightarrow> SymbolRoleSet \<Rightarrow>
   (SymbolOccurrence \<Rightarrow> 'st \<times> Event list \<Rightarrow> (bool \<times> 'st \<times> Event list) option) \<Rightarrow>
   'st \<times> Event list \<Rightarrow> (bool \<times> 'st \<times> Event list) option" where
  "foreachSymbolOccurrenceByUSR Index USR RoleSet Receiver w =
     SymbolIndex_foreachSymbolOccurrenceByUSR (SymIndex Index) USR RoleSet Receiver w"

definition foreachRelatedSymbolOccurrenceByUSR ::
  "IndexSystemImpl \<Rightarrow> string \<Rightarrow> SymbolRoleSet \<Rightarrow>
   (SymbolOccurrence \<Rightarrow> 'st \<times> Event list \<Rightarrow> (bool \<times> 'st \<times> Event list) option) \<Rightarrow>
   'st \<times> Event list \<Rightarrow> (bool \<times> 'st \<times> Event list) option" where
  "foreachRelatedSymbolOccurrenceByUSR Index USR RoleSet Receiver w =
     SymbolIndex_foreachRelatedSymbolOccurrenceByUSR (SymIndex Index) USR RoleSet Receiver w"

text \<open>The caller's receiver is a callback with a state of its own; invoking it is
  recorded.\<close>

definition callReceiver ::
  "(SymbolOccurrence \<Rightarrow> 's \<Rightarrow> bool \<times> 's) \<Rightarrow>
   SymbolOccurrence \<Rightarrow> 's \<times> Event list \<Rightarrow> (bool \<times> 's \<times> Event list) option" where
  "callReceiver Receiver Occur w =
     (case Receiver Occur (fst w) of
        (Continue, s') \<Rightarrow> Some (Continue, s', snd w @ [ReceiverCall Occur]))"

section \<open>Transitive closure subroutines\<close>

text \<open>Lines 347--362: the two overloads of \<^verbatim>\<open>containsSymWithUSR\<close>, over symbols and over
  occurrences.\<close>

fun containsSymWithUSR :: "Symbol \<Rightarrow> Symbol list \<Rightarrow> bool" where
  "containsSymWithUSR Sym Syms = (find (\<lambda>FoundSym. getUSR FoundSym = getUSR Sym) Syms \<noteq> None)"

fun containsSymWithUSR_occ :: "Symbol \<Rightarrow> SymbolOccurrence list \<Rightarrow> bool" where
  "containsSymWithUSR_occ Sym Syms =
     (find (\<lambda>FoundSym. getUSR (getSymbol FoundSym) = getUSR Sym) Syms \<noteq> None)"

text \<open>Lines 364--409. The recursion of the source has no bound of its own. The model counts
  the depth of the recursion down from a given fuel and returns \<open>None\<close> when the fuel is
  used up. The accumulated list is passed by reference in the source; here it is threaded
  through the receivers as state, together with the log.\<close>

fun getBaseMethodsOrClassesImpl ::
  "nat \<Rightarrow> IndexSystemImpl \<Rightarrow> Symbol \<Rightarrow> Symbol list \<times> Event list \<Rightarrow>
   (Symbol list \<times> Event list) option" where
  "getBaseMethodsOrClassesImpl 0 Index Sym st = None"
| "getBaseMethodsOrClassesImpl (Suc fuel) Index Sym st =
     (let addEntry = (\<lambda>NewSym (BaseSyms, lg).
            if \<not> containsSymWithUSR NewSym BaseSyms
            then getBaseMethodsOrClassesImpl fuel Index NewSym (BaseSyms @ [NewSym], lg)
            else Some (BaseSyms, lg))
      in
        if getSymbolKind Sym = InstanceMethod then
          map_option snd
            (foreachSymbolOccurrenceByUSR Index (getUSR Sym) {RelationOverrideOf}
               (\<lambda>Occur st'. map_option (Pair True)
                  (foreachRelatedSymbol Occur {RelationOverrideOf} addEntry st'))
               st)
        else
          map_option snd
            (foreachRelatedSymbolOccurrenceByUSR Index (getUSR Sym) {RelationBaseOf}
               (\<lambda>Occur st'. map_option (Pair True) (addEntry (getSymbol Occur) st'))
               st))"

fun getAllRelatedOccursImpl ::
  "nat \<Rightarrow> IndexSystemImpl \<Rightarrow> Symbol \<Rightarrow> SymbolRoleSet \<Rightarrow>
   SymbolOccurrence list \<times> Event list \<Rightarrow> (SymbolOccurrence list \<times> Event list) option" where
  "getAllRelatedOccursImpl 0 Index Sym RoleSet st = None"
| "getAllRelatedOccursImpl (Suc fuel) Index Sym RoleSet st =
     (let addEntry = (\<lambda>NewSym (RelSyms, lg).
            if \<not> containsSymWithUSR_occ (getSymbol NewSym) RelSyms
            then getAllRelatedOccursImpl fuel Index (getSymbol NewSym) RoleSet
                   (RelSyms @ [NewSym], lg)
            else Some (RelSyms, lg))
      in
        map_option snd
          (foreachRelatedSymbolOccurrenceByUSR Index (getUSR Sym) RoleSet
             (\<lambda>Occur st'. map_option (Pair True) (addEntry Occur st'))
             st))"

text \<open>Lines 520--525.\<close>

definition getBaseMethodsOrClasses ::
  "nat \<Rightarrow> IndexSystemImpl \<Rightarrow> Symbol \<Rightarrow> Event list \<Rightarrow> (Symbol list \<times> Event list) option" where
  "getBaseMethodsOrClasses fuel Index Sym lg = getBaseMethodsOrClassesImpl fuel Index Sym ([], lg)"

section \<open>Call-occurrence resolution\<close>

text \<open>Lines 445--452: every receiver class that is an extension is overwritten by the
  symbol of the first occurrence that extends it; the inner receiver stops the
  enumeration at once.\<close>

fun replaceExtensions ::
  "IndexSystemImpl \<Rightarrow> Symbol list \<Rightarrow> Event list \<Rightarrow> (Symbol list \<times> Event list) option" where
  "replaceExtensions Index [] lg = Some ([], lg)"
| "replaceExtensions Index (clsSym # rest) lg =
     (case (if getSymbolKind clsSym = Extension
            then map_option snd
                   (foreachRelatedSymbolOccurrenceByUSR Index (getUSR clsSym) {RelationExtendedBy}
                      (\<lambda>Occur (clsSym', lg'). Some (False, getSymbol Occur, lg'))
                      (clsSym, lg))
            else Some (clsSym, lg)) of
        None \<Rightarrow> None
      | Some (clsSym', lg') \<Rightarrow>
          (case replaceExtensions Index rest lg' of
             None \<Rightarrow> None
           | Some (rest', lg'') \<Rightarrow> Some (clsSym' # rest', lg'')))"

text \<open>Lines 469--473: the classes of the receivers together with their base classes.\<close>

definition collectClassSyms ::
  "nat \<Rightarrow> IndexSystemImpl \<Rightarrow> Symbol list \<Rightarrow> Event list \<Rightarrow> (Symbol list \<times> Event list) option" where
  "collectClassSyms fuel Index clsSyms lg =
     foreachAll clsSyms
       (\<lambda>clsSym st.
          case getBaseMethodsOrClassesImpl fuel Index clsSym st of
            None \<Rightarrow> None
          | Some (ClassSyms, lg') \<Rightarrow> Some (ClassSyms @ [clsSym], lg'))
       ([], lg)"

text \<open>Lines 481--502: the receiver handed to the enumeration of the calls of a base
  method.\<close>

definition dispatchReceiver ::
  "Symbol list \<Rightarrow> (SymbolOccurrence \<Rightarrow> 's \<Rightarrow> bool \<times> 's) \<Rightarrow>
   SymbolOccurrence \<Rightarrow> 's \<times> Event list \<Rightarrow> (bool \<times> 's \<times> Event list) option" where
  "dispatchReceiver ClassSyms Receiver Occur w =
     (let IsDynamic = containsAny (getRoles Occur) {Dynamic} in
      if \<not> IsDynamic then Some (True, w)
      else
        case (if \<not> contains (getRoles Occur) {RelationReceivedBy} then Some True
              else foreachRelatedSymbol Occur {RelationReceivedBy}
                     (\<lambda>RelSym PossiblyCalledViaDispatch.
                        Some (if containsSymWithUSR RelSym ClassSyms then True
                              else PossiblyCalledViaDispatch))
                     False) of
          None \<Rightarrow> None
        | Some PossiblyCalledViaDispatch \<Rightarrow>
            if PossiblyCalledViaDispatch then callReceiver Receiver Occur w
            else Some (True, w))"

text \<open>Lines 457--467: the branch taken when the first receiver class is a protocol.\<close>

definition protocolCallers ::
  "nat \<Rightarrow> IndexSystemImpl \<Rightarrow> Symbol \<Rightarrow> (SymbolOccurrence \<Rightarrow> 's \<Rightarrow> bool \<times> 's) \<Rightarrow>
   's \<times> Event list \<Rightarrow> (bool \<times> 's \<times> Event list) option" where
  "protocolCallers fuel Index Sym Receiver w =
     (case getAllRelatedOccursImpl fuel Index Sym {RelationOverrideOf} ([], snd w) of
        None \<Rightarrow> None
      | Some (overrideSyms, lg) \<Rightarrow>
          foreachUntilStop overrideSyms
            (\<lambda>occur. foreachSymbolOccurrenceByUSR Index (getUSR (getSymbol occur)) {Call}
                        (callReceiver Receiver))
            (fst w, lg))"

text \<open>Lines 476--508: the calls of the base methods, filtered by receiver class.\<close>

definition baseMethodCallers ::
  "nat \<Rightarrow> IndexSystemImpl \<Rightarrow> Symbol \<Rightarrow> Symbol list \<Rightarrow> (SymbolOccurrence \<Rightarrow> 's \<Rightarrow> bool \<times> 's) \<Rightarrow>
   's \<times> Event list \<Rightarrow> (bool \<times> 's \<times> Event list) option" where
  "baseMethodCallers fuel Index Sym ClassSyms Receiver w =
     (case getBaseMethodsOrClasses fuel Index Sym (snd w) of
        None \<Rightarrow> None
      | Some (BaseMethodSyms, lg) \<Rightarrow>
          foreachUntilStop BaseMethodSyms
            (\<lambda>MethodSym. foreachSymbolOccurrenceByUSR Index (getUSR MethodSym) {Call}
                            (dispatchReceiver ClassSyms Receiver))
            (fst w, lg))"

text \<open>Lines 428--508: the search for dynamic callers, entered once the direct calls have
  been delivered and the callee occurrence is dynamic.\<close>

definition dynamicCallers ::
  "nat \<Rightarrow> IndexSystemImpl \<Rightarrow> SymbolOccurrence \<Rightarrow> (SymbolOccurrence \<Rightarrow> 's \<Rightarrow> bool \<times> 's) \<Rightarrow>
   's \<times> Event list \<Rightarrow> (bool \<times> 's \<times> Event list) option" where
  "dynamicCallers fuel Index Callee Receiver w =
     (let Sym = getSymbol Callee;
          RelationToUse =
            (if containsAny (getRoles Callee) {Call} then RelationReceivedBy
             else RelationChildOf)
      in
        Option.bind
          (foreachRelatedSymbol Callee {RelationToUse}
             (\<lambda>RelSym clsSyms. Some (clsSyms @ [RelSym])) [])
          (\<lambda>clsSyms0.
        Option.bind (replaceExtensions Index clsSyms0 (snd w))
          (\<lambda>(clsSyms, lg).
        if clsSyms = [] then Some (True, fst w, lg)
        else if getSymbolKind (clsSyms ! 0) = Protocol
        then protocolCallers fuel Index Sym Receiver (fst w, lg)
        else
          Option.bind (collectClassSyms fuel Index clsSyms lg)
            (\<lambda>(ClassSyms, lg').
               baseMethodCallers fuel Index Sym ClassSyms Receiver (fst w, lg')))))"

text \<open>Lines 411--509.\<close>

definition foreachSymbolCallOccurrence ::
  "nat \<Rightarrow> IndexSystemImpl \<Rightarrow> SymbolOccurrence \<Rightarrow> (SymbolOccurrence \<Rightarrow> 's \<Rightarrow> bool \<times> 's) \<Rightarrow>
   's \<times> Event list \<Rightarrow> (bool \<times> 's \<times> Event list) option" where
  "foreachSymbolCallOccurrence fuel Index Callee Receiver w =
     (let Sym = getSymbol Callee in
      if \<not> isCallable Sym then Some (False, w)
      else
        (case foreachSymbolOccurrenceByUSR Index (getUSR Sym) {Call} (callReceiver Receiver) w of
           None \<Rightarrow> None
         | Some (Continue, w1) \<Rightarrow>
             if \<not> Continue then Some (False, w1)
             else if \<not> containsAny (getRoles Callee) {Dynamic} then Some (True, w1)
             else dynamicCallers fuel Index Callee Receiver w1))"

section \<open>Path queries\<close>

text \<open>Lines 527--566: the four queries that canonicalize their path argument.\<close>

definition isKnownFile :: "IndexSystemImpl \<Rightarrow> string \<Rightarrow> bool" where
  "isKnownFile Index filePath =
     (let canonPath = getCanonicalPath (PathIndex Index) filePath
      in FilePathIndex_isKnownFile (PathIndex Index) canonPath)"

definition foreachMainUnitContainingFile ::
  "IndexSystemImpl \<Rightarrow> string \<Rightarrow> (StoreUnitInfo \<Rightarrow> 'st \<Rightarrow> (bool \<times> 'st) option) \<Rightarrow>
   'st \<Rightarrow> (bool \<times> 'st) option" where
  "foreachMainUnitContainingFile Index filePath receiver st =
     (let canonPath = getCanonicalPath (PathIndex Index) filePath
      in FilePathIndex_foreachMainUnitContainingFile (PathIndex Index) canonPath receiver st)"

definition foreachFileIncludingFile ::
  "IndexSystemImpl \<Rightarrow> string \<Rightarrow> (CanonicalFilePath \<times> nat \<Rightarrow> 'st \<Rightarrow> (bool \<times> 'st) option) \<Rightarrow>
   'st \<Rightarrow> (bool \<times> 'st) option" where
  "foreachFileIncludingFile Index TargetPath Receiver st =
     (let canonTargetPath = getCanonicalPath (PathIndex Index) TargetPath
      in FilePathIndex_foreachFileIncludingFile (PathIndex Index) canonTargetPath Receiver st)"

definition foreachFileIncludedByFile ::
  "IndexSystemImpl \<Rightarrow> string \<Rightarrow> (CanonicalFilePath \<times> nat \<Rightarrow> 'st \<Rightarrow> (bool \<times> 'st) option) \<Rightarrow>
   'st \<Rightarrow> (bool \<times> 'st) option" where
  "foreachFileIncludedByFile Index SourcePath Receiver st =
     (let canonSourcePath = getCanonicalPath (PathIndex Index) SourcePath
      in FilePathIndex_foreachFileIncludedByFile (PathIndex Index) canonSourcePath Receiver st)"

section \<open>The asynchronous delegate wrapper\<close>

datatype OutOfDateTriggerHint =
    DependentFileOutOfDateTriggerHint string
  | DependentUnitOutOfDateTriggerHint string OutOfDateTriggerHint

text \<open>The user delegate is an object with a state \<open>'u\<close> of its own; each of its methods
  transforms that state. Time points are opaque values.\<close>

record 'u IndexSystemDelegate =
  processingAddedPending :: "nat \<Rightarrow> 'u \<Rightarrow> 'u"
  processingCompleted :: "nat \<Rightarrow> 'u \<Rightarrow> 'u"
  processedStoreUnit :: "StoreUnitInfo \<Rightarrow> 'u \<Rightarrow> 'u"
  unitIsOutOfDate :: "StoreUnitInfo \<Rightarrow> int \<Rightarrow> OutOfDateTriggerHint \<Rightarrow> bool \<Rightarrow> 'u \<Rightarrow> 'u"

text \<open>The wrapper owns the optional user delegate and a serial work queue.\<close>

record 'u AsyncIndexDelegate =
  Other :: "'u IndexSystemDelegate option"
  Queue :: "('u \<Rightarrow> 'u) list"

text \<open>Modelled from the spec: the serial work queue is the sequence of the closures
  dispatched and not yet run, oldest first; \<^verbatim>\<open>dispatch\<close> appends one and returns
  without running it.\<close>

definition dispatch :: "('u \<Rightarrow> 'u) \<Rightarrow> 'u AsyncIndexDelegate \<Rightarrow> 'u AsyncIndexDelegate" where
  "dispatch task D = D\<lparr>Queue := Queue D @ [task]\<rparr>"

text \<open>Lines 80--96. The result is the wrapper and the state of the user delegate when the
  call returns.\<close>

definition AsyncIndexDelegate_unitIsOutOfDate ::
  "StoreUnitInfo \<Rightarrow> int \<Rightarrow> OutOfDateTriggerHint \<Rightarrow> bool \<Rightarrow>
   'u AsyncIndexDelegate \<times> 'u \<Rightarrow> 'u AsyncIndexDelegate \<times> 'u" where
  "AsyncIndexDelegate_unitIsOutOfDate unitInfo outOfDateModTime hint synchronous st =
     (case Other (fst st) of
        None \<Rightarrow> st
      | Some other \<Rightarrow>
          if synchronous
          then (fst st, unitIsOutOfDate other unitInfo outOfDateModTime hint True (snd st))
          else
            let LocalOther = other
            in (dispatch (\<lambda>u. unitIsOutOfDate LocalOther unitInfo outOfDateModTime hint False u)
                  (fst st), snd st))"

section \<open>Notions used to state the properties\<close>

subsection \<open>Delivery to the caller's receiver\<close>

text \<open>What a receiver sees when it is fed a sequence of occurrences one by one until it
  asks to stop: whether the sequence was exhausted, the receiver's final state, and the
  occurrences it was invoked on.\<close>

fun deliver ::
  "(SymbolOccurrence \<Rightarrow> 's \<Rightarrow> bool \<times> 's) \<Rightarrow> SymbolOccurrence list \<Rightarrow> 's \<Rightarrow>
   bool \<times> 's \<times> SymbolOccurrence list" where
  "deliver Receiver [] s = (True, s, [])"
| "deliver Receiver (Occur # rest) s =
     (case Receiver Occur s of
        (Continue, s') \<Rightarrow>
          if Continue
          then (case deliver Receiver rest s' of (b, s'', ds) \<Rightarrow> (b, s'', Occur # ds))
          else (False, s', [Occur]))"

text \<open>The receiver invocations and the index queries recorded in a log.\<close>

fun receivedOccurrences :: "Event list \<Rightarrow> SymbolOccurrence list" where
  "receivedOccurrences [] = []"
| "receivedOccurrences (ReceiverCall Occur # es) = Occur # receivedOccurrences es"
| "receivedOccurrences (e # es) = receivedOccurrences es"

fun isQuery :: "Event \<Rightarrow> bool" where
  "isQuery (ReceiverCall Occur) = False"
| "isQuery e = True"

definition indexQueries :: "Event list \<Rightarrow> Event list" where
  "indexQueries lg = filter isQuery lg"

subsection \<open>Candidates of the closure subroutines\<close>

text \<open>The candidates that \<^verbatim>\<open>getBaseMethodsOrClassesImpl\<close> hands to \<^verbatim>\<open>addEntry\<close> for a
  symbol, in order: the overridden symbols of the occurrences of an instance method, the
  symbols of the occurrences related as bases for anything else.\<close>

definition baseCandidates :: "IndexSystemImpl \<Rightarrow> Symbol \<Rightarrow> Symbol list" where
  "baseCandidates Index Sym =
     (if getSymbolKind Sym = InstanceMethod
      then concat (map (\<lambda>Occur. relatedSymbols Occur {RelationOverrideOf})
                     (occurrencesByUSR (SymIndex Index) (getUSR Sym) {RelationOverrideOf}))
      else map getSymbol (relatedOccurrencesByUSR (SymIndex Index) (getUSR Sym) {RelationBaseOf}))"

definition baseQuery :: "Symbol \<Rightarrow> Event" where
  "baseQuery Sym =
     (if getSymbolKind Sym = InstanceMethod
      then QueryOccurrences (getUSR Sym) {RelationOverrideOf}
      else QueryRelatedOccurrences (getUSR Sym) {RelationBaseOf})"

text \<open>The candidates of \<^verbatim>\<open>getAllRelatedOccursImpl\<close> for the symbol of an occurrence.\<close>

definition relatedCandidates ::
  "IndexSystemImpl \<Rightarrow> SymbolRoleSet \<Rightarrow> SymbolOccurrence \<Rightarrow> SymbolOccurrence list" where
  "relatedCandidates Index RoleSet Occur =
     relatedOccurrencesByUSR (SymIndex Index) (getUSR (getSymbol Occur)) RoleSet"

definition occUSR :: "SymbolOccurrence \<Rightarrow> string" where
  "occUSR Occur = getUSR (getSymbol Occur)"

text \<open>The USRs an index can ever yield as candidates: those of the symbols of occurrences
  yielded by a related-occurrence query, and those of the related symbols of occurrences
  yielded by an occurrence query. A finite index yields finitely many.\<close>

definition indexUSRs :: "IndexSystemImpl \<Rightarrow> string set" where
  "indexUSRs Index =
     {u. \<exists>USR RoleSet Occur.
           Occur \<in> set (relatedOccurrencesByUSR (SymIndex Index) USR RoleSet) \<and> u = occUSR Occur}
     \<union> {u. \<exists>USR RoleSet Occur Rel.
           Occur \<in> set (occurrencesByUSR (SymIndex Index) USR RoleSet) \<and>
           Rel \<in> set (getRelations Occur) \<and> u = getUSR (snd Rel)}"

subsection \<open>Depth-first walk with deduplication by key\<close>

text \<open>Both closure subroutines are instances of one walk: the pending candidates are
  visited in order; a candidate whose key is already in the accumulated list is skipped,
  any other is appended and its own candidates are walked before the remaining ones. The
  fuel bounds the depth.\<close>

fun walk ::
  "nat \<Rightarrow> ('a \<Rightarrow> 'a list) \<Rightarrow> ('a \<Rightarrow> 'k) \<Rightarrow> 'a list \<Rightarrow> 'a list \<Rightarrow> 'a list option" where
  "walk fuel succs key [] L = Some L"
| "walk 0 succs key (c # cs) L =
     (if key c \<in> key ` set L then walk 0 succs key cs L else None)"
| "walk (Suc n) succs key (c # cs) L =
     (if key c \<in> key ` set L then walk (Suc n) succs key cs L
      else (case walk n succs key (succs c) (L @ [c]) of
              None \<Rightarrow> None
            | Some L' \<Rightarrow> walk (Suc n) succs key cs L'))"

text \<open>The elements reachable from a list of start elements through the successor
  function.\<close>

inductive_set reach :: "('a \<Rightarrow> 'a list) \<Rightarrow> 'a list \<Rightarrow> 'a set"
  for succs :: "'a \<Rightarrow> 'a list" and cs :: "'a list" where
  start: "c \<in> set cs \<Longrightarrow> c \<in> reach succs cs"
| step: "x \<in> reach succs cs \<Longrightarrow> y \<in> set (succs x) \<Longrightarrow> y \<in> reach succs cs"

text \<open>What a finished walk from \<open>cs\<close> has done to the accumulated list: it has appended
  reachable elements only, every start element and every successor of an appended element
  is present by key, and duplicate-freedom by key is preserved.\<close>

definition walked ::
  "('a \<Rightarrow> 'a list) \<Rightarrow> ('a \<Rightarrow> 'k) \<Rightarrow> 'a list \<Rightarrow> 'a list \<Rightarrow> 'a list \<Rightarrow> bool" where
  "walked s k cs L L' \<longleftrightarrow>
     (\<exists>A. L' = L @ A
        \<and> set A \<subseteq> reach s cs
        \<and> (\<forall>c \<in> set cs. k c \<in> k ` set L')
        \<and> (\<forall>x \<in> set A. \<forall>c \<in> set (s x). k c \<in> k ` set L')
        \<and> (distinct (map k L) \<longrightarrow> distinct (map k L')))"

text \<open>The body of \<^verbatim>\<open>addEntry\<close> in either subroutine, named so that the iteration over the
  candidates can be stated.\<close>

definition addBaseEntry ::
  "nat \<Rightarrow> IndexSystemImpl \<Rightarrow> Symbol \<Rightarrow> Symbol list \<times> Event list \<Rightarrow>
   (Symbol list \<times> Event list) option" where
  "addBaseEntry fuel Index NewSym st =
     (if \<not> containsSymWithUSR NewSym (fst st)
      then getBaseMethodsOrClassesImpl fuel Index NewSym (fst st @ [NewSym], snd st)
      else Some st)"

definition addRelatedEntry ::
  "nat \<Rightarrow> IndexSystemImpl \<Rightarrow> SymbolRoleSet \<Rightarrow> SymbolOccurrence \<Rightarrow>
   SymbolOccurrence list \<times> Event list \<Rightarrow> (SymbolOccurrence list \<times> Event list) option" where
  "addRelatedEntry fuel Index RoleSet NewSym st =
     (if \<not> containsSymWithUSR_occ (getSymbol NewSym) (fst st)
      then getAllRelatedOccursImpl fuel Index (getSymbol NewSym) RoleSet
             (fst st @ [NewSym], snd st)
      else Some st)"

subsection \<open>Receiver classes and the dispatch filter\<close>

text \<open>The relation under which the receiver classes of the callee occurrence are
  collected.\<close>

definition relationToUse :: "SymbolOccurrence \<Rightarrow> SymbolRole" where
  "relationToUse Callee =
     (if Call \<in> getRoles Callee then RelationReceivedBy else RelationChildOf)"

text \<open>The type an extension is rewritten to: the symbol of the first occurrence the index
  yields as extended by it; a symbol that is not an extension, or an extension for which
  nothing is yielded, stays.\<close>

definition extendedType :: "IndexSystemImpl \<Rightarrow> Symbol \<Rightarrow> Symbol" where
  "extendedType Index s =
     (if getSymbolKind s = Extension
      then (case relatedOccurrencesByUSR (SymIndex Index) (getUSR s) {RelationExtendedBy} of
              [] \<Rightarrow> s
            | Occur # rest \<Rightarrow> getSymbol Occur)
      else s)"

definition extensionQueries :: "Symbol list \<Rightarrow> Event list" where
  "extensionQueries C =
     map (\<lambda>s. QueryRelatedOccurrences (getUSR s) {RelationExtendedBy})
       (filter (\<lambda>s. getSymbolKind s = Extension) C)"

text \<open>The receiver-class set before and after extension rewriting.\<close>

definition collectedClasses :: "SymbolOccurrence \<Rightarrow> Symbol list" where
  "collectedClasses Callee = relatedSymbols Callee {relationToUse Callee}"

definition receiverClasses :: "IndexSystemImpl \<Rightarrow> SymbolOccurrence \<Rightarrow> Symbol list" where
  "receiverClasses Index Callee = map (extendedType Index) (collectedClasses Callee)"

text \<open>The filter of the class-hierarchy path, in the words of the spec: the occurrence is
  dynamic, and it either has no received-by role or one of its received-by related symbols
  has a USR present in the class list.\<close>

definition admits :: "Symbol list \<Rightarrow> SymbolOccurrence \<Rightarrow> bool" where
  "admits ClassSyms Occur \<longleftrightarrow>
     Dynamic \<in> getRoles Occur \<and>
     (RelationReceivedBy \<notin> getRoles Occur \<or>
      (\<exists>RelSym \<in> set (relatedSymbols Occur {RelationReceivedBy}).
         getUSR RelSym \<in> getUSR ` set ClassSyms))"

text \<open>A list of symbols is closed under bases when every candidate of each of its members
  is present by USR.\<close>

definition basesClosed :: "IndexSystemImpl \<Rightarrow> Symbol list \<Rightarrow> bool" where
  "basesClosed Index L \<longleftrightarrow>
     (\<forall>x \<in> set L. \<forall>c \<in> set (baseCandidates Index x). getUSR c \<in> getUSR ` set L)"

text \<open>One step of the related-occurrence relation between USRs.\<close>

definition relatedStep :: "IndexSystemImpl \<Rightarrow> SymbolRoleSet \<Rightarrow> (string \<times> string) set" where
  "relatedStep Index RoleSet =
     {(u, v). \<exists>Occur \<in> set (relatedOccurrencesByUSR (SymIndex Index) u RoleSet). occUSR Occur = v}"

section \<open>Example indexes\<close>

text \<open>A symbol index backed by two finite tables, keyed by USR and role: a query yields the
  entries of every row whose USR matches and whose role is among the roles asked for.\<close>

type_synonym OccurrenceTable = "((string \<times> SymbolRole) \<times> SymbolOccurrence list) list"

definition lookupTable :: "OccurrenceTable \<Rightarrow> string \<Rightarrow> SymbolRoleSet \<Rightarrow> SymbolOccurrence list" where
  "lookupTable T USR RoleSet =
     concat (map snd (filter (\<lambda>row. fst (fst row) = USR \<and> snd (fst row) \<in> RoleSet) T))"

text \<open>A path index that knows one file and treats a leading \<^verbatim>\<open>./\<close> as redundant.\<close>

definition examplePaths :: FilePathIndex where
  "examplePaths =
     \<lparr>getCanonicalPath = (\<lambda>p. CanonicalFilePath (if take 2 p = ''./'' then drop 2 p else p)),
      knownFile = (\<lambda>c. c = CanonicalFilePath ''a.h''),
      mainUnitsContainingFile = (\<lambda>c. if c = CanonicalFilePath ''a.h''
         then [\<lparr>UnitName = ''u1'', MainFilePath = CanonicalFilePath ''a.c''\<rparr>] else []),
      filesIncludingFile = (\<lambda>c. if c = CanonicalFilePath ''a.h''
         then [(CanonicalFilePath ''a.c'', 3)] else []),
      filesIncludedByFile = (\<lambda>c. if c = CanonicalFilePath ''a.c''
         then [(CanonicalFilePath ''a.h'', 3)] else [])\<rparr>"

definition tableIndex :: "OccurrenceTable \<Rightarrow> OccurrenceTable \<Rightarrow> IndexSystemImpl" where
  "tableIndex Occs Rels =
     \<lparr>SymIndex = \<lparr>occurrencesByUSR = lookupTable Occs,
                  relatedOccurrencesByUSR = lookupTable Rels\<rparr>,
      PathIndex = examplePaths\<rparr>"

definition sym :: "string \<Rightarrow> SymbolKind \<Rightarrow> bool \<Rightarrow> Symbol" where
  "sym u k c = \<lparr>getUSR = u, getSymbolKind = k, isCallable = c\<rparr>"

definition occ ::
  "Symbol \<Rightarrow> SymbolRoleSet \<Rightarrow> (SymbolRoleSet \<times> Symbol) list \<Rightarrow> nat \<Rightarrow> SymbolOccurrence" where
  "occ s r rels l = \<lparr>getSymbol = s, getRoles = r, getRelations = rels, getLocation = l\<rparr>"

text \<open>Two receivers: one collects every occurrence and continues, the other collects and
  stops at once.\<close>

definition collectAll :: "SymbolOccurrence \<Rightarrow> SymbolOccurrence list \<Rightarrow> bool \<times> SymbolOccurrence list" where
  "collectAll Occur acc = (True, acc @ [Occur])"

definition collectOne :: "SymbolOccurrence \<Rightarrow> SymbolOccurrence list \<Rightarrow> bool \<times> SymbolOccurrence list" where
  "collectOne Occur acc = (False, acc @ [Occur])"

text \<open>A function \<open>f\<close> with two call sites, and a variable \<open>v\<close>, which is not callable.\<close>

definition symF :: Symbol where "symF = sym ''c:f'' (OtherKind 1) True"
definition symV :: Symbol where "symV = sym ''c:v'' (OtherKind 2) False"

definition directIndex :: IndexSystemImpl where
  "directIndex =
     tableIndex
       [((''c:f'', Call), [occ symF {Call} [] 10, occ symF {Call} [] 20]),
        ((''c:v'', Call), [occ symV {Call} [] 30])]
       []"

text \<open>A user delegate that records, for every out-of-date notification, the unit name and
  whether it was delivered synchronously; and a wrapper around it with an empty queue.\<close>

definition recordingDelegate :: "(string \<times> bool) list IndexSystemDelegate" where
  "recordingDelegate =
     \<lparr>processingAddedPending = (\<lambda>n u. u),
      processingCompleted = (\<lambda>n u. u),
      processedStoreUnit = (\<lambda>unitInfo u. u),
      unitIsOutOfDate = (\<lambda>unitInfo t hint synchronous u. u @ [(UnitName unitInfo, synchronous)])\<rparr>"

definition exampleWrapper :: "(string \<times> bool) list AsyncIndexDelegate" where
  "exampleWrapper = \<lparr>Other = Some recordingDelegate, Queue = []\<rparr>"

definition exampleUnit :: StoreUnitInfo where
  "exampleUnit = \<lparr>UnitName = ''u1'', MainFilePath = CanonicalFilePath ''a.c''\<rparr>"

text \<open>Two classes that the index reports as bases of each other.\<close>

definition classA :: Symbol where "classA = sym ''c:A'' (OtherKind 0) False"
definition classB :: Symbol where "classB = sym ''c:B'' (OtherKind 0) False"

definition cyclicIndex :: IndexSystemImpl where
  "cyclicIndex =
     tableIndex []
       [((''c:A'', RelationBaseOf), [occ classB {} [({RelationBaseOf}, classA)] 1]),
        ((''c:B'', RelationBaseOf), [occ classA {} [({RelationBaseOf}, classB)] 2])]"

text \<open>The USRs that occur in the tables of a table-backed index.\<close>

definition tableUSRs :: "OccurrenceTable \<Rightarrow> OccurrenceTable \<Rightarrow> string list" where
  "tableUSRs Occs Rels =
     map occUSR (concat (map snd Rels))
     @ concat (map (\<lambda>Occur. map (\<lambda>Rel. getUSR (snd Rel)) (getRelations Occur))
                 (concat (map snd Occs)))"

text \<open>A class hierarchy: \<open>D\<close> derives from \<open>B\<close>, which derives from \<open>A\<close>; method \<open>m\<close> of
  \<open>D\<close> overrides \<open>mB\<close>, which overrides \<open>mA\<close>. There is one call of \<open>m\<close>, three calls of
  \<open>mB\<close> (on an unrelated class, on \<open>B\<close>, and a static one) and one call of \<open>mA\<close> on an
  untyped receiver.\<close>

definition classD :: Symbol where "classD = sym ''c:D'' (OtherKind 0) False"
definition classU :: Symbol where "classU = sym ''c:U'' (OtherKind 0) False"
definition methM :: Symbol where "methM = sym ''c:m'' InstanceMethod True"
definition methMB :: Symbol where "methMB = sym ''c:mB'' InstanceMethod True"
definition methMA :: Symbol where "methMA = sym ''c:mA'' InstanceMethod True"

definition callX :: SymbolOccurrence where
  "callX = occ methM {Call, Dynamic, RelationReceivedBy} [({RelationReceivedBy}, classD)] 100"
definition callY :: SymbolOccurrence where
  "callY = occ methMB {Call, Dynamic, RelationReceivedBy} [({RelationReceivedBy}, classU)] 200"
definition callW :: SymbolOccurrence where
  "callW = occ methMB {Call, Dynamic, RelationReceivedBy} [({RelationReceivedBy}, classB)] 210"
definition callS :: SymbolOccurrence where
  "callS = occ methMB {Call} [] 220"
definition callZ :: SymbolOccurrence where
  "callZ = occ methMA {Call, Dynamic} [] 300"

definition hierarchyOccs :: OccurrenceTable where
  "hierarchyOccs =
     [((''c:m'', Call), [callX]),
      ((''c:m'', RelationOverrideOf),
         [occ methM {RelationOverrideOf} [({RelationOverrideOf}, methMB)] 1]),
      ((''c:mB'', RelationOverrideOf),
         [occ methMB {RelationOverrideOf} [({RelationOverrideOf}, methMA)] 2]),
      ((''c:mB'', Call), [callY, callW, callS]),
      ((''c:mA'', Call), [callZ])]"

definition hierarchyRels :: OccurrenceTable where
  "hierarchyRels =
     [((''c:D'', RelationBaseOf), [occ classB {RelationBaseOf} [({RelationBaseOf}, classD)] 3]),
      ((''c:B'', RelationBaseOf), [occ classA {RelationBaseOf} [({RelationBaseOf}, classB)] 4])]"

definition hierarchyIndex :: IndexSystemImpl where
  "hierarchyIndex = tableIndex hierarchyOccs hierarchyRels"

text \<open>A protocol \<open>P\<close> with requirement \<open>m\<close>; \<open>m1\<close> overrides \<open>m\<close> and \<open>m2\<close> overrides \<open>m1\<close>;
  each of the three methods has one call site.\<close>

definition protoP :: Symbol where "protoP = sym ''c:P'' Protocol False"
definition methM1 :: Symbol where "methM1 = sym ''c:m1'' InstanceMethod True"
definition methM2 :: Symbol where "methM2 = sym ''c:m2'' InstanceMethod True"

definition protoCallee :: SymbolOccurrence where
  "protoCallee = occ methM {Call, Dynamic, RelationReceivedBy} [({RelationReceivedBy}, protoP)] 5"

definition siteA :: SymbolOccurrence where "siteA = occ methM {Call} [] 11"
definition siteB :: SymbolOccurrence where "siteB = occ methM1 {Call} [] 12"
definition siteC :: SymbolOccurrence where "siteC = occ methM2 {Call} [] 13"
definition defM1 :: SymbolOccurrence where
  "defM1 = occ methM1 {RelationOverrideOf} [({RelationOverrideOf}, methM)] 21"
definition defM2 :: SymbolOccurrence where
  "defM2 = occ methM2 {RelationOverrideOf} [({RelationOverrideOf}, methM1)] 22"

definition protocolOccs :: OccurrenceTable where
  "protocolOccs =
     [((''c:m'', Call), [siteA]), ((''c:m1'', Call), [siteB]), ((''c:m2'', Call), [siteC])]"

definition protocolRels :: OccurrenceTable where
  "protocolRels =
     [((''c:m'', RelationOverrideOf), [defM1]), ((''c:m1'', RelationOverrideOf), [defM2])]"

definition protocolIndex :: IndexSystemImpl where
  "protocolIndex = tableIndex protocolOccs protocolRels"

text \<open>An extension \<open>E\<close> of the class \<open>D\<close> of the hierarchy above: the callee is the
  definition of a method in \<open>E\<close>.\<close>

definition extE :: Symbol where "extE = sym ''c:E'' Extension False"

definition extCallee :: SymbolOccurrence where
  "extCallee = occ methM {Dynamic, RelationChildOf} [({RelationChildOf}, extE)] 6"

definition extensionIndex :: IndexSystemImpl where
  "extensionIndex =
     tableIndex hierarchyOccs
       (((''c:E'', RelationExtendedBy),
           [occ classD {RelationExtendedBy} [({RelationExtendedBy}, extE)] 207,
            occ classU {RelationExtendedBy} [({RelationExtendedBy}, extE)] 208])
        # hierarchyRels)"

text \<open>A receiver that collects and asks to stop once it has been handed a given
  occurrence.\<close>

definition collectUpTo ::
  "SymbolOccurrence \<Rightarrow> SymbolOccurrence \<Rightarrow> SymbolOccurrence list \<Rightarrow> bool \<times> SymbolOccurrence list" where
  "collectUpTo Last Occur acc = (Occur \<noteq> Last, acc @ [Occur])"

section \<open>Properties of the depth-first walk\<close>

lemma walk_fuel_mono:
  "walk n s k cs L = Some r \<Longrightarrow> n \<le> m \<Longrightarrow> walk m s k cs L = Some r"
proof (induction n s k cs L arbitrary: m r rule: walk.induct)
  case (1 fuel succs key L)
  then show ?case by simp
next
  case (2 succs key c cs L)
  from "2.prems"(1) have True: "key c \<in> key ` set L" by (simp split: if_splits)
  with "2.prems"(1) have w: "walk 0 succs key cs L = Some r" by simp
  from "2.IH"[OF True w] have "walk m succs key cs L = Some r" by simp
  with True show ?case by (cases m) simp_all
next
  case (3 n succs key c cs L)
  from "3.prems"(2) obtain m' where m: "m = Suc m'" and le: "n \<le> m'"
    by (cases m) auto
  show ?case
  proof (cases "key c \<in> key ` set L")
    case True
    with "3.prems"(1) have w: "walk (Suc n) succs key cs L = Some r" by simp
    from "3.IH"(1)[OF True w "3.prems"(2)] True m show ?thesis by simp
  next
    case False
    with "3.prems"(1) obtain L1 where
          w1: "walk n succs key (succs c) (L @ [c]) = Some L1"
      and w2: "walk (Suc n) succs key cs L1 = Some r"
      by (auto split: option.splits)
    from "3.IH"(2)[OF False w1 le] have a: "walk m' succs key (succs c) (L @ [c]) = Some L1" .
    from "3.IH"(3)[OF False w1 w2 "3.prems"(2)] have b: "walk m succs key cs L1 = Some r" .
    from False a b m show ?thesis by simp
  qed
qed

lemma reach_mono_start:
  assumes "x \<in> reach s cs" and "set cs \<subseteq> reach s ds"
  shows "x \<in> reach s ds"
  using assms by (induction rule: reach.induct) (auto intro: reach.step)

lemma walked_Nil: "walked s k [] L L"
  by (simp add: walked_def)

lemma walked_skip:
  assumes "k c \<in> k ` set L" and "walked s k cs L L'"
  shows "walked s k (c # cs) L L'"
proof -
  from assms(2) obtain A where A: "L' = L @ A" "set A \<subseteq> reach s cs"
      "\<forall>c \<in> set cs. k c \<in> k ` set L'"
      "\<forall>x \<in> set A. \<forall>c \<in> set (s x). k c \<in> k ` set L'"
      "distinct (map k L) \<longrightarrow> distinct (map k L')"
    unfolding walked_def by blast
  have sub: "set cs \<subseteq> reach s (c # cs)" by (auto intro: reach.start)
  have "set A \<subseteq> reach s (c # cs)"
    using A(2) reach_mono_start[OF _ sub] by blast
  moreover have "k c \<in> k ` set L'" using assms(1) A(1) by auto
  ultimately show ?thesis unfolding walked_def using A by auto
qed

lemma walked_visit:
  assumes False: "k c \<notin> k ` set L"
    and 1: "walked s k (s c) (L @ [c]) L1"
    and 2: "walked s k cs L1 L'"
  shows "walked s k (c # cs) L L'"
proof -
  from 1 obtain A1 where A1: "L1 = (L @ [c]) @ A1"
      "set A1 \<subseteq> reach s (s c)"
      "\<forall>d \<in> set (s c). k d \<in> k ` set L1"
      "\<forall>x \<in> set A1. \<forall>d \<in> set (s x). k d \<in> k ` set L1"
      "distinct (map k (L @ [c])) \<longrightarrow> distinct (map k L1)"
    unfolding walked_def by blast
  from 2 obtain A2 where A2: "L' = L1 @ A2"
      "set A2 \<subseteq> reach s cs"
      "\<forall>d \<in> set cs. k d \<in> k ` set L'"
      "\<forall>x \<in> set A2. \<forall>d \<in> set (s x). k d \<in> k ` set L'"
      "distinct (map k L1) \<longrightarrow> distinct (map k L')"
    unfolding walked_def by blast
  let ?A = "c # A1 @ A2"
  have e: "L' = L @ ?A" using A1(1) A2(1) by simp
  have "c \<in> reach s (c # cs)" by (simp add: reach.start)
  then have sub1: "set (s c) \<subseteq> reach s (c # cs)"
    by (auto intro: reach.step)
  have sub2: "set cs \<subseteq> reach s (c # cs)" by (auto intro: reach.start)
  have r1: "set A1 \<subseteq> reach s (c # cs)" using A1(2) reach_mono_start[OF _ sub1] by blast
  have r2: "set A2 \<subseteq> reach s (c # cs)" using A2(2) reach_mono_start[OF _ sub2] by blast
  have r: "set ?A \<subseteq> reach s (c # cs)"
    using r1 r2 by (simp add: reach.start)
  have L1sub: "k ` set L1 \<subseteq> k ` set L'" using A2(1) by auto
  have c1: "\<forall>d \<in> set (c # cs). k d \<in> k ` set L'"
    using A2(3) e by auto
  have c2: "\<forall>x \<in> set ?A. \<forall>d \<in> set (s x). k d \<in> k ` set L'"
    using A1(3,4) A2(4) L1sub by auto
  have d: "distinct (map k L) \<longrightarrow> distinct (map k L')"
    using A1(5) A2(5) False by auto
  from e r c1 c2 d show ?thesis unfolding walked_def by blast
qed

lemma walk_walked:
  "walk n s k cs L = Some L' \<Longrightarrow> walked s k cs L L'"
proof (induction n s k cs L arbitrary: L' rule: walk.induct)
  case (1 fuel succs key L)
  then show ?case by (simp add: walked_Nil)
next
  case (2 succs key c cs L)
  from "2.prems"(1) have True: "key c \<in> key ` set L" by (simp split: if_splits)
  with "2.prems"(1) have w: "walk 0 succs key cs L = Some L'" by simp
  from walked_skip[OF True "2.IH"[OF True w]] show ?case .
next
  case (3 n succs key c cs L)
  show ?case
  proof (cases "key c \<in> key ` set L")
    case True
    with "3.prems" have w: "walk (Suc n) succs key cs L = Some L'" by simp
    from walked_skip[OF True "3.IH"(1)[OF True w]] show ?thesis .
  next
    case False
    with "3.prems"(1) obtain L1 where
          w1: "walk n succs key (succs c) (L @ [c]) = Some L1"
      and w2: "walk (Suc n) succs key cs L1 = Some L'"
      by (auto split: option.splits)
    from walked_visit[OF False "3.IH"(2)[OF False w1] "3.IH"(3)[OF False w1 w2]]
    show ?thesis .
  qed
qed

lemma walked_keys_mono: "walked s k cs L L' \<Longrightarrow> k ` set L \<subseteq> k ` set L'"
  unfolding walked_def by auto

lemma walk_total:
  "finite U \<Longrightarrow> (\<forall>x. k ` set (s x) \<subseteq> U) \<Longrightarrow> k ` set cs \<subseteq> U \<Longrightarrow>
   card (U - k ` set L) \<le> n \<Longrightarrow> \<exists>L'. walk n s k cs L = Some L'"
proof (induction n s k cs L rule: walk.induct)
  case (1 fuel succs key L)
  then show ?case by simp
next
  case (2 succs key c cs L)
  from "2.prems"(1,4) have "U - key ` set L = {}" by simp
  with "2.prems"(3) have True: "key c \<in> key ` set L" by auto
  from "2.prems"(3) have cs: "key ` set cs \<subseteq> U" by simp
  from "2.IH"[OF True "2.prems"(1,2) cs "2.prems"(4)] True show ?case by simp
next
  case (3 n succs key c cs L)
  from "3.prems"(3) have cs: "key ` set cs \<subseteq> U" and cU: "key c \<in> U" by simp_all
  show ?case
  proof (cases "key c \<in> key ` set L")
    case True
    from "3.IH"(1)[OF True "3.prems"(1,2) cs "3.prems"(4)] True show ?thesis by simp
  next
    case False
    have eq: "U - key ` set (L @ [c]) = (U - key ` set L) - {key c}" by auto
    have mem: "key c \<in> U - key ` set L" using cU False by simp
    have finD: "finite (U - key ` set L)" using "3.prems"(1) by simp
    have "card ((U - key ` set L) - {key c}) < card (U - key ` set L)"
      using finD mem by (rule card_Diff1_less)
    with eq have "card (U - key ` set (L @ [c])) < card (U - key ` set L)" by simp
    with "3.prems"(4) have le: "card (U - key ` set (L @ [c])) \<le> n" by simp
    from "3.prems"(2) have sc: "key ` set (succs c) \<subseteq> U" by blast
    from "3.IH"(2)[OF False "3.prems"(1,2) sc le] obtain L1
      where w1: "walk n succs key (succs c) (L @ [c]) = Some L1" by blast
    from walked_keys_mono[OF walk_walked[OF w1]] have "key ` set L \<subseteq> key ` set L1" by auto
    then have "U - key ` set L1 \<subseteq> U - key ` set L" by blast
    then have "card (U - key ` set L1) \<le> card (U - key ` set L)"
      using "3.prems"(1) by (simp add: card_mono)
    with "3.prems"(4) have le1: "card (U - key ` set L1) \<le> Suc n" by simp
    from "3.IH"(3)[OF False w1 "3.prems"(1,2) cs le1] obtain L'
      where "walk (Suc n) succs key cs L1 = Some L'" by blast
    with False w1 show ?thesis by simp
  qed
qed


section \<open>Delivery to the receiver\<close>

lemma containsAny_single [simp]: "containsAny S {r} \<longleftrightarrow> r \<in> S"
  by (simp add: containsAny_def)

lemma contains_single [simp]: "contains S {r} \<longleftrightarrow> r \<in> S"
  by (simp add: contains_def)

lemma foreachUntilStop_callReceiver:
  "foreachUntilStop xs (callReceiver R) (s, lg) =
     (case deliver R xs s of (b, s', ds) \<Rightarrow> Some (b, s', lg @ map ReceiverCall ds))"
  by (induction xs arbitrary: s lg) (auto simp: callReceiver_def split: prod.splits)

lemma direct_calls:
  "foreachSymbolOccurrenceByUSR Index USR RoleSet (callReceiver R) (s, lg) =
     (case deliver R (occurrencesByUSR (SymIndex Index) USR RoleSet) s of
        (b, s', ds) \<Rightarrow> Some (b, s', lg @ QueryOccurrences USR RoleSet # map ReceiverCall ds))"
  by (simp add: foreachSymbolOccurrenceByUSR_def SymbolIndex_foreachSymbolOccurrenceByUSR_def
        foreachUntilStop_callReceiver split: prod.splits)

text \<open>What \<open>deliver\<close> hands to the receiver is an initial segment of the sequence, the whole
  of it when the flag is true; a receiver that never asks to stop gets everything.\<close>

lemma deliver_prefix:
  "deliver R xs s = (b, s', ds) \<Longrightarrow> \<exists>rest. xs = ds @ rest \<and> (b \<longrightarrow> rest = [])"
proof (induction xs arbitrary: s b s' ds)
  case Nil
  then show ?case by simp
next
  case (Cons x xs)
  obtain c s1 where r: "R x s = (c, s1)" by (cases "R x s")
  show ?case
  proof (cases c)
    case False
    with Cons.prems r show ?thesis by auto
  next
    case True
    obtain b2 s2 ds2 where d: "deliver R xs s1 = (b2, s2, ds2)"
      by (cases "deliver R xs s1") auto
    from Cons.IH [OF d] obtain rest where "xs = ds2 @ rest" "b2 \<longrightarrow> rest = []" by blast
    with Cons.prems r True d show ?thesis by auto
  qed
qed

lemma deliver_never_stopped:
  "(\<And>x s. fst (R x s)) \<Longrightarrow> fst (deliver R xs s) \<and> snd (snd (deliver R xs s)) = xs"
proof (induction xs arbitrary: s)
  case Nil
  show ?case by simp
next
  case (Cons x xs)
  obtain c s1 where r: "R x s = (c, s1)" by (cases "R x s")
  with Cons.prems [of x s] have c: "c" by simp
  obtain b2 s2 ds2 where d: "deliver R xs s1 = (b2, s2, ds2)"
    by (cases "deliver R xs s1") auto
  with Cons.IH [OF Cons.prems, of s1] have "b2" "ds2 = xs" by simp_all
  with r c d show ?case by simp
qed


section \<open>The closure subroutines are depth-first walks\<close>

lemma foreachUntilStop_always:
  "foreachUntilStop xs (\<lambda>x st. map_option (Pair True) (f x st)) st
     = map_option (Pair True) (foreachAll xs f st)"
  by (induction xs arbitrary: st) (auto split: option.splits)

lemma foreachAll_append:
  "foreachAll (xs @ ys) f st = Option.bind (foreachAll xs f st) (foreachAll ys f)"
  by (induction xs arbitrary: st) (auto split: option.splits)

lemma foreachAll_concat:
  "foreachAll xss (\<lambda>xs. foreachAll xs f) st = foreachAll (concat xss) f st"
  by (induction xss arbitrary: st) (auto simp: foreachAll_append split: option.splits)

lemma foreachAll_map:
  "foreachAll (map g xs) f st = foreachAll xs (\<lambda>x. f (g x)) st"
  by (induction xs arbitrary: st) (auto split: option.splits)

lemma map_option_snd_Pair: "map_option snd (map_option (Pair b) x) = x"
  by (cases x) simp_all

lemma containsSymWithUSR_iff:
  "containsSymWithUSR Sym Syms \<longleftrightarrow> getUSR Sym \<in> getUSR ` set Syms"
  by (auto simp: find_None_iff intro!: rev_image_eqI)

lemma containsSymWithUSR_occ_iff:
  "containsSymWithUSR_occ Sym Syms \<longleftrightarrow> getUSR Sym \<in> occUSR ` set Syms"
  by (auto simp: find_None_iff occUSR_def intro!: rev_image_eqI)

lemma addBaseEntry_lambda:
  "(\<lambda>NewSym (BaseSyms, lg).
       if \<not> containsSymWithUSR NewSym BaseSyms
       then getBaseMethodsOrClassesImpl fuel Index NewSym (BaseSyms @ [NewSym], lg)
       else Some (BaseSyms, lg)) = addBaseEntry fuel Index"
  by (auto simp: addBaseEntry_def fun_eq_iff)

lemma getBaseMethodsOrClassesImpl_Suc:
  "getBaseMethodsOrClassesImpl (Suc n) Index Sym (L, lg) =
     foreachAll (baseCandidates Index Sym) (addBaseEntry n Index) (L, lg @ [baseQuery Sym])"
proof (cases "getSymbolKind Sym = InstanceMethod")
  case True
  then show ?thesis
    unfolding getBaseMethodsOrClassesImpl.simps Let_def addBaseEntry_lambda
    by (simp add: foreachSymbolOccurrenceByUSR_def SymbolIndex_foreachSymbolOccurrenceByUSR_def
          foreachRelatedSymbol_def foreachUntilStop_always map_option_snd_Pair
          baseCandidates_def baseQuery_def foreachAll_concat [symmetric] foreachAll_map)
next
  case False
  then show ?thesis
    unfolding getBaseMethodsOrClassesImpl.simps Let_def addBaseEntry_lambda
    by (simp add: foreachRelatedSymbolOccurrenceByUSR_def
          SymbolIndex_foreachRelatedSymbolOccurrenceByUSR_def
          foreachUntilStop_always map_option_snd_Pair
          baseCandidates_def baseQuery_def foreachAll_map)
qed

lemma addRelatedEntry_lambda:
  "(\<lambda>NewSym (RelSyms, lg).
       if \<not> containsSymWithUSR_occ (getSymbol NewSym) RelSyms
       then getAllRelatedOccursImpl fuel Index (getSymbol NewSym) RoleSet (RelSyms @ [NewSym], lg)
       else Some (RelSyms, lg)) = addRelatedEntry fuel Index RoleSet"
  by (auto simp: addRelatedEntry_def fun_eq_iff)

lemma getAllRelatedOccursImpl_Suc:
  "getAllRelatedOccursImpl (Suc n) Index Sym RoleSet (L, lg) =
     foreachAll (relatedOccurrencesByUSR (SymIndex Index) (getUSR Sym) RoleSet)
       (addRelatedEntry n Index RoleSet)
       (L, lg @ [QueryRelatedOccurrences (getUSR Sym) RoleSet])"
  unfolding getAllRelatedOccursImpl.simps Let_def addRelatedEntry_lambda
  by (simp add: foreachRelatedSymbolOccurrenceByUSR_def
        SymbolIndex_foreachRelatedSymbolOccurrenceByUSR_def
        foreachUntilStop_always map_option_snd_Pair)

lemma addBaseEntry_walk:
  "map_option fst (foreachAll cs (addBaseEntry n Index) (L, lg))
     = walk n (baseCandidates Index) getUSR cs L"
proof (induction n arbitrary: cs L lg)
  case 0
  show ?case
    by (induction cs arbitrary: L lg)
       (auto simp: addBaseEntry_def containsSymWithUSR_iff simp del: containsSymWithUSR.simps)
next
  case (Suc n)
  show ?case
  proof (induction cs arbitrary: L lg)
    case Nil
    show ?case by simp
  next
    case (Cons c cs)
    show ?case
    proof (cases "getUSR c \<in> getUSR ` set L")
      case True
      then show ?thesis
        using Cons.IH [of L lg]
        by (simp add: addBaseEntry_def containsSymWithUSR_iff del: containsSymWithUSR.simps)
    next
      case False
      have step: "addBaseEntry (Suc n) Index c (L, lg)
                    = foreachAll (baseCandidates Index c) (addBaseEntry n Index)
                        (L @ [c], lg @ [baseQuery c])"
        using False
        by (simp add: addBaseEntry_def containsSymWithUSR_iff getBaseMethodsOrClassesImpl_Suc
              del: containsSymWithUSR.simps getBaseMethodsOrClassesImpl.simps)
      show ?thesis
      proof (cases "foreachAll (baseCandidates Index c) (addBaseEntry n Index)
                        (L @ [c], lg @ [baseQuery c])")
        case None
        with Suc [of "baseCandidates Index c" "L @ [c]" "lg @ [baseQuery c]"]
        have "walk n (baseCandidates Index) getUSR (baseCandidates Index c) (L @ [c]) = None"
          by simp
        with None False step show ?thesis by simp
      next
        case (Some st1)
        obtain L1 lg1 where st1: "st1 = (L1, lg1)" by (cases st1)
        with Some Suc [of "baseCandidates Index c" "L @ [c]" "lg @ [baseQuery c]"]
        have "walk n (baseCandidates Index) getUSR (baseCandidates Index c) (L @ [c]) = Some L1"
          by simp
        with Some st1 False step Cons.IH [of L1 lg1] show ?thesis by simp
      qed
    qed
  qed
qed

lemma addRelatedEntry_walk:
  "map_option fst (foreachAll cs (addRelatedEntry n Index RoleSet) (L, lg))
     = walk n (relatedCandidates Index RoleSet) occUSR cs L"
proof (induction n arbitrary: cs L lg)
  case 0
  show ?case
    by (induction cs arbitrary: L lg)
       (auto simp: addRelatedEntry_def containsSymWithUSR_occ_iff occUSR_def
             simp del: containsSymWithUSR_occ.simps)
next
  case (Suc n)
  show ?case
  proof (induction cs arbitrary: L lg)
    case Nil
    show ?case by simp
  next
    case (Cons c cs)
    let ?q = "QueryRelatedOccurrences (getUSR (getSymbol c)) RoleSet"
    show ?case
    proof (cases "occUSR c \<in> occUSR ` set L")
      case True
      then show ?thesis
        using Cons.IH [of L lg]
        by (simp add: addRelatedEntry_def containsSymWithUSR_occ_iff occUSR_def
              del: containsSymWithUSR_occ.simps)
    next
      case False
      have step: "addRelatedEntry (Suc n) Index RoleSet c (L, lg)
                    = foreachAll (relatedCandidates Index RoleSet c) (addRelatedEntry n Index RoleSet)
                        (L @ [c], lg @ [?q])"
        using False
        by (simp add: addRelatedEntry_def containsSymWithUSR_occ_iff getAllRelatedOccursImpl_Suc
              relatedCandidates_def occUSR_def
              del: containsSymWithUSR_occ.simps getAllRelatedOccursImpl.simps)
      show ?thesis
      proof (cases "foreachAll (relatedCandidates Index RoleSet c) (addRelatedEntry n Index RoleSet)
                        (L @ [c], lg @ [?q])")
        case None
        with Suc [of "relatedCandidates Index RoleSet c" "L @ [c]" "lg @ [?q]"]
        have "walk n (relatedCandidates Index RoleSet) occUSR (relatedCandidates Index RoleSet c) (L @ [c]) = None"
          by simp
        with None False step show ?thesis by simp
      next
        case (Some st1)
        obtain L1 lg1 where st1: "st1 = (L1, lg1)" by (cases st1)
        with Some Suc [of "relatedCandidates Index RoleSet c" "L @ [c]" "lg @ [?q]"]
        have "walk n (relatedCandidates Index RoleSet) occUSR (relatedCandidates Index RoleSet c) (L @ [c]) = Some L1"
          by simp
        with Some st1 False step Cons.IH [of L1 lg1] show ?thesis by simp
      qed
    qed
  qed
qed


section \<open>Termination of the closure subroutines on finite indexes\<close>

lemma indexUSRs_relI:
  "Occur \<in> set (relatedOccurrencesByUSR (SymIndex Index) USR RoleSet) \<Longrightarrow>
   occUSR Occur \<in> indexUSRs Index"
  unfolding indexUSRs_def by blast

lemma indexUSRs_occI:
  "Occur \<in> set (occurrencesByUSR (SymIndex Index) USR RoleSet) \<Longrightarrow>
   Rel \<in> set (getRelations Occur) \<Longrightarrow> getUSR (snd Rel) \<in> indexUSRs Index"
  unfolding indexUSRs_def by blast

lemma relatedSymbols_subset:
  "c \<in> set (relatedSymbols Occur Roles) \<Longrightarrow> \<exists>Rel \<in> set (getRelations Occur). c = snd Rel"
  by (auto simp: relatedSymbols_def)

lemma baseCandidates_indexUSRs:
  "getUSR ` set (baseCandidates Index Sym) \<subseteq> indexUSRs Index"
proof
  fix u assume u: "u \<in> getUSR ` set (baseCandidates Index Sym)"
  show "u \<in> indexUSRs Index"
  proof (cases "getSymbolKind Sym = InstanceMethod")
    case True
    with u obtain Occur c where
      o: "Occur \<in> set (occurrencesByUSR (SymIndex Index) (getUSR Sym) {RelationOverrideOf})"
      and c: "c \<in> set (relatedSymbols Occur {RelationOverrideOf})" and uc: "u = getUSR c"
      by (auto simp: baseCandidates_def)
    from relatedSymbols_subset [OF c] obtain Rel
      where "Rel \<in> set (getRelations Occur)" "c = snd Rel" by blast
    with indexUSRs_occI [OF o] uc show ?thesis by simp
  next
    case False
    with u obtain Occur where
      o: "Occur \<in> set (relatedOccurrencesByUSR (SymIndex Index) (getUSR Sym) {RelationBaseOf})"
      and uc: "u = getUSR (getSymbol Occur)"
      by (auto simp: baseCandidates_def)
    with indexUSRs_relI [OF o] show ?thesis by (simp add: occUSR_def)
  qed
qed

lemma relatedOccurrences_indexUSRs:
  "occUSR ` set (relatedOccurrencesByUSR (SymIndex Index) USR RoleSet) \<subseteq> indexUSRs Index"
  using indexUSRs_relI by blast

lemma card_Diff_le: "finite U \<Longrightarrow> card (U - X) \<le> card U"
  by (simp add: card_mono)

lemma getBaseMethodsOrClassesImpl_walk:
  "map_option fst (getBaseMethodsOrClassesImpl (Suc n) Index Sym (L, lg))
     = walk n (baseCandidates Index) getUSR (baseCandidates Index Sym) L"
  by (simp only: getBaseMethodsOrClassesImpl_Suc addBaseEntry_walk)

lemma getAllRelatedOccursImpl_walk:
  "map_option fst (getAllRelatedOccursImpl (Suc n) Index Sym RoleSet (L, lg))
     = walk n (relatedCandidates Index RoleSet) occUSR
         (relatedOccurrencesByUSR (SymIndex Index) (getUSR Sym) RoleSet) L"
  by (simp only: getAllRelatedOccursImpl_Suc addRelatedEntry_walk)

lemma getBaseMethodsOrClassesImpl_total:
  assumes "finite (indexUSRs Index)" and "card (indexUSRs Index) < fuel"
  shows "\<exists>L' lg'. getBaseMethodsOrClassesImpl fuel Index Sym (L, lg) = Some (L', lg')"
proof -
  from assms(2) obtain n where n: "fuel = Suc n" and le: "card (indexUSRs Index) \<le> n"
    by (cases fuel) auto
  have "card (indexUSRs Index - getUSR ` set L) \<le> n"
    using card_Diff_le [OF assms(1)] le by (rule order_trans)
  with walk_total [of "indexUSRs Index" getUSR "baseCandidates Index" "baseCandidates Index Sym" L n]
    assms(1) baseCandidates_indexUSRs
  obtain L' where "walk n (baseCandidates Index) getUSR (baseCandidates Index Sym) L = Some L'"
    by blast
  with getBaseMethodsOrClassesImpl_walk [of n Index Sym L lg] n
  show ?thesis by (cases "getBaseMethodsOrClassesImpl fuel Index Sym (L, lg)") auto
qed

lemma getAllRelatedOccursImpl_total:
  assumes "finite (indexUSRs Index)" and "card (indexUSRs Index) < fuel"
  shows "\<exists>L' lg'. getAllRelatedOccursImpl fuel Index Sym RoleSet (L, lg) = Some (L', lg')"
proof -
  from assms(2) obtain n where n: "fuel = Suc n" and le: "card (indexUSRs Index) \<le> n"
    by (cases fuel) auto
  have "card (indexUSRs Index - occUSR ` set L) \<le> n"
    using card_Diff_le [OF assms(1)] le by (rule order_trans)
  moreover have "\<forall>x. occUSR ` set (relatedCandidates Index RoleSet x) \<subseteq> indexUSRs Index"
    unfolding relatedCandidates_def using relatedOccurrences_indexUSRs by blast
  ultimately obtain L' where "walk n (relatedCandidates Index RoleSet) occUSR
         (relatedOccurrencesByUSR (SymIndex Index) (getUSR Sym) RoleSet) L = Some L'"
    using walk_total [of "indexUSRs Index" occUSR "relatedCandidates Index RoleSet"
         "relatedOccurrencesByUSR (SymIndex Index) (getUSR Sym) RoleSet" L n]
      assms(1) relatedOccurrences_indexUSRs [of Index "getUSR Sym" RoleSet]
    by blast
  with getAllRelatedOccursImpl_walk [of n Index Sym RoleSet L lg] n
  show ?thesis by (cases "getAllRelatedOccursImpl fuel Index Sym RoleSet (L, lg)") auto
qed


lemma getBaseMethodsOrClasses_walked:
  assumes "getBaseMethodsOrClasses fuel Index s lg = Some (L, lg')"
  shows "walked (baseCandidates Index) getUSR (baseCandidates Index s) [] L"
proof -
  from assms obtain n where n: "fuel = Suc n"
    by (cases fuel) (auto simp: getBaseMethodsOrClasses_def)
  with assms getBaseMethodsOrClassesImpl_walk [of n Index s "[]" lg]
  have "walk n (baseCandidates Index) getUSR (baseCandidates Index s) [] = Some L"
    by (simp add: getBaseMethodsOrClasses_def del: getBaseMethodsOrClassesImpl.simps)
  then show ?thesis by (rule walk_walked)
qed


section \<open>Delivery through the dispatch filter and across a list of methods\<close>

lemma deliver_append:
  "deliver R (xs @ ys) s =
     (case deliver R xs s of
        (b, s', ds) \<Rightarrow>
          if b then (case deliver R ys s' of (b', s'', ds') \<Rightarrow> (b', s'', ds @ ds'))
          else (False, s', ds))"
  by (induction xs arbitrary: s) (auto split: prod.splits)

lemma receivedOccurrences_append:
  "receivedOccurrences (xs @ ys) = receivedOccurrences xs @ receivedOccurrences ys"
  by (induction xs rule: receivedOccurrences.induct) simp_all

lemma receivedOccurrences_calls: "receivedOccurrences (map ReceiverCall ds) = ds"
  by (induction ds) simp_all

lemma indexQueries_calls: "indexQueries (map ReceiverCall ds) = []"
  by (induction ds) (simp_all add: indexQueries_def)

lemma indexQueries_append: "indexQueries (xs @ ys) = indexQueries xs @ indexQueries ys"
  by (simp add: indexQueries_def)

lemma possiblyCalled_fold:
  "foreachAll syms
     (\<lambda>RelSym PossiblyCalledViaDispatch.
        Some (if containsSymWithUSR RelSym ClassSyms then True else PossiblyCalledViaDispatch)) p
   = Some (p \<or> (\<exists>RelSym \<in> set syms. getUSR RelSym \<in> getUSR ` set ClassSyms))"
  by (induction syms arbitrary: p)
     (auto simp: containsSymWithUSR_iff simp del: containsSymWithUSR.simps)

lemma dispatchReceiver_admits:
  "dispatchReceiver ClassSyms R Occur w =
     (if admits ClassSyms Occur then callReceiver R Occur w else Some (True, w))"
  by (simp add: dispatchReceiver_def admits_def foreachRelatedSymbol_def possiblyCalled_fold
        del: containsSymWithUSR.simps)

lemma foreachUntilStop_dispatchReceiver:
  "foreachUntilStop xs (dispatchReceiver ClassSyms R) (s, lg) =
     (case deliver R (filter (admits ClassSyms) xs) s of
        (b, s', ds) \<Rightarrow> Some (b, s', lg @ map ReceiverCall ds))"
  by (induction xs arbitrary: s lg)
     (auto simp: dispatchReceiver_admits callReceiver_def split: prod.splits)

lemma foreachUntilStop_callReceiver_filter:
  "foreachUntilStop xs (callReceiver R) (s, lg) =
     (case deliver R (filter (\<lambda>x. True) xs) s of
        (b, s', ds) \<Rightarrow> Some (b, s', lg @ map ReceiverCall ds))"
  by (simp add: foreachUntilStop_callReceiver)

lemma fanOut_deliver:
  assumes recv: "\<And>xs s lg. foreachUntilStop xs recv (s, lg) =
     (case deliver R (filter P xs) s of (b, s', ds) \<Rightarrow> Some (b, s', lg @ map ReceiverCall ds))"
  shows "deliver R (filter P (concat (map (\<lambda>m. occurrencesByUSR (SymIndex Index) (key m) {Call}) ms))) s
           = (b, s', ds) \<Longrightarrow>
         \<exists>lg'. foreachUntilStop ms
                  (\<lambda>m. foreachSymbolOccurrenceByUSR Index (key m) {Call} recv) (s, lg)
                  = Some (b, s', lg @ lg')
              \<and> receivedOccurrences lg' = ds
              \<and> set (indexQueries lg') \<subseteq> (\<lambda>m. QueryOccurrences (key m) {Call}) ` set ms"
proof (induction ms arbitrary: s lg b s' ds)
  case Nil
  then show ?case by (simp add: indexQueries_def)
next
  case (Cons m ms)
  let ?xs = "occurrencesByUSR (SymIndex Index) (key m) {Call}"
  let ?q = "QueryOccurrences (key m) {Call}"
  obtain b1 s1 ds1 where d1: "deliver R (filter P ?xs) s = (b1, s1, ds1)"
    by (cases "deliver R (filter P ?xs) s") auto
  have body: "foreachSymbolOccurrenceByUSR Index (key m) {Call} recv (s, lg)
                = Some (b1, s1, lg @ ?q # map ReceiverCall ds1)"
    using d1 by (simp add: foreachSymbolOccurrenceByUSR_def
        SymbolIndex_foreachSymbolOccurrenceByUSR_def recv)
  show ?case
  proof (cases b1)
    case False
    with Cons.prems d1 have e: "b = False" "s' = s1" "ds = ds1"
      by (simp_all add: deliver_append)
    have "foreachUntilStop (m # ms)
            (\<lambda>m. foreachSymbolOccurrenceByUSR Index (key m) {Call} recv) (s, lg)
          = Some (b, s', lg @ (?q # map ReceiverCall ds1))"
      using body False e by simp
    moreover have "receivedOccurrences (?q # map ReceiverCall ds1) = ds"
      using e by (simp add: receivedOccurrences_calls)
    moreover have "set (indexQueries (?q # map ReceiverCall ds1))
                     \<subseteq> (\<lambda>m. QueryOccurrences (key m) {Call}) ` set (m # ms)"
      using indexQueries_calls [of ds1] by (simp add: indexQueries_def)
    ultimately show ?thesis by blast
  next
    case True
    obtain b2 s2 ds2 where d2:
      "deliver R (filter P (concat (map (\<lambda>m. occurrencesByUSR (SymIndex Index) (key m) {Call}) ms))) s1
         = (b2, s2, ds2)"
      by (cases "deliver R (filter P (concat (map (\<lambda>m. occurrencesByUSR (SymIndex Index) (key m) {Call}) ms))) s1") auto
    with Cons.prems d1 True have e: "b = b2" "s' = s2" "ds = ds1 @ ds2"
      by (simp_all add: deliver_append)
    from Cons.IH [OF d2, of "lg @ ?q # map ReceiverCall ds1"] obtain lg2 where
      r: "foreachUntilStop ms (\<lambda>m. foreachSymbolOccurrenceByUSR Index (key m) {Call} recv)
            (s1, lg @ ?q # map ReceiverCall ds1)
          = Some (b2, s2, (lg @ ?q # map ReceiverCall ds1) @ lg2)"
      and ro: "receivedOccurrences lg2 = ds2"
      and q: "set (indexQueries lg2) \<subseteq> (\<lambda>m. QueryOccurrences (key m) {Call}) ` set ms"
      by blast
    let ?lg' = "(?q # map ReceiverCall ds1) @ lg2"
    have "foreachUntilStop (m # ms)
            (\<lambda>m. foreachSymbolOccurrenceByUSR Index (key m) {Call} recv) (s, lg)
          = Some (b, s', lg @ ?lg')"
      using body True r e by simp
    moreover have "receivedOccurrences ?lg' = ds"
      using e ro by (simp add: receivedOccurrences_append receivedOccurrences_calls)
    moreover have "set (indexQueries ?lg')
                     \<subseteq> (\<lambda>m. QueryOccurrences (key m) {Call}) ` set (m # ms)"
      using q indexQueries_calls [of ds1] by (auto simp: indexQueries_def)
    ultimately show ?thesis by blast
  qed
qed


lemma foreachAll_push_back:
  "foreachAll xs (\<lambda>x acc. Some (acc @ [x])) acc = Some (acc @ xs)"
  by (induction xs arbitrary: acc) simp_all

lemma replaceExtension_first:
  "foreachRelatedSymbolOccurrenceByUSR Index USR {RelationExtendedBy}
     (\<lambda>Occur (clsSym', lg'). Some (False, getSymbol Occur, lg')) (clsSym, lg)
   = (case relatedOccurrencesByUSR (SymIndex Index) USR {RelationExtendedBy} of
        [] \<Rightarrow> Some (True, clsSym, lg @ [QueryRelatedOccurrences USR {RelationExtendedBy}])
      | Occur # rest \<Rightarrow>
          Some (False, getSymbol Occur, lg @ [QueryRelatedOccurrences USR {RelationExtendedBy}]))"
  by (simp add: foreachRelatedSymbolOccurrenceByUSR_def
        SymbolIndex_foreachRelatedSymbolOccurrenceByUSR_def split: list.splits)

lemma replaceExtensions_eq:
  "replaceExtensions Index C lg = Some (map (extendedType Index) C, lg @ extensionQueries C)"
proof (induction C arbitrary: lg)
  case Nil
  show ?case by (simp add: extensionQueries_def)
next
  case (Cons c C)
  show ?case
  proof (cases "getSymbolKind c = Extension")
    case True
    then show ?thesis
      by (simp add: replaceExtension_first Cons.IH extendedType_def extensionQueries_def
            split: list.splits)
  next
    case False
    then show ?thesis
      by (simp add: Cons.IH extendedType_def extensionQueries_def)
  qed
qed

lemma dynamicCallers_eq:
  "dynamicCallers fuel Index Callee R (s, lg) =
     (let C = receiverClasses Index Callee;
          lg2 = lg @ extensionQueries (collectedClasses Callee)
      in if C = [] then Some (True, s, lg2)
         else if getSymbolKind (C ! 0) = Protocol
         then protocolCallers fuel Index (getSymbol Callee) R (s, lg2)
         else Option.bind (collectClassSyms fuel Index C lg2)
                (\<lambda>(ClassSyms, lg3).
                   baseMethodCallers fuel Index (getSymbol Callee) ClassSyms R (s, lg3)))"
  by (simp add: dynamicCallers_def Let_def foreachRelatedSymbol_def
        foreachAll_push_back [of _ "[]", simplified] replaceExtensions_eq receiverClasses_def
        collectedClasses_def relationToUse_def)

lemma foreachSymbolCallOccurrence_dynamic:
  assumes "isCallable (getSymbol Callee)" and "Dynamic \<in> getRoles Callee"
    and "foreachSymbolOccurrenceByUSR Index (getUSR (getSymbol Callee)) {Call}
           (callReceiver R) w = Some (True, s1, lg1)"
  shows "foreachSymbolCallOccurrence fuel Index Callee R w
           = dynamicCallers fuel Index Callee R (s1, lg1)"
  using assms by (simp add: foreachSymbolCallOccurrence_def)


lemma related_reach_trancl:
  assumes "x \<in> reach (relatedCandidates Index RoleSet)
                 (relatedOccurrencesByUSR (SymIndex Index) u RoleSet)"
  shows "(u, occUSR x) \<in> (relatedStep Index RoleSet)\<^sup>+"
  using assms
proof (induction rule: reach.induct)
  case (start c)
  then have "(u, occUSR c) \<in> relatedStep Index RoleSet"
    unfolding relatedStep_def by blast
  then show ?case by (rule r_into_trancl)
next
  case (step x y)
  from step.hyps(2) have "(occUSR x, occUSR y) \<in> relatedStep Index RoleSet"
    unfolding relatedStep_def relatedCandidates_def occUSR_def by blast
  with step.IH show ?case by (rule trancl_into_trancl)
qed

lemma related_trancl_walked:
  assumes w: "walked (relatedCandidates Index RoleSet) occUSR
                (relatedOccurrencesByUSR (SymIndex Index) u RoleSet) [] L"
    and t: "(u, v) \<in> (relatedStep Index RoleSet)\<^sup>+"
  shows "v \<in> occUSR ` set L"
  using t
proof (induction rule: trancl_induct)
  case (base y)
  then obtain Occur where "Occur \<in> set (relatedOccurrencesByUSR (SymIndex Index) u RoleSet)"
      "occUSR Occur = y"
    unfolding relatedStep_def by blast
  with w show ?case unfolding walked_def by force
next
  case (step y z)
  from step.IH obtain x where x: "x \<in> set L" "occUSR x = y" by auto
  from step.hyps(2) x(2) obtain Occur where
    o: "Occur \<in> set (relatedCandidates Index RoleSet x)" "occUSR Occur = z"
    unfolding relatedStep_def relatedCandidates_def occUSR_def by blast
  from w x(1) o(1) have "occUSR Occur \<in> occUSR ` set L"
    unfolding walked_def by auto
  with o(2) show ?case by simp
qed

lemma getAllRelatedOccursImpl_closure:
  assumes "getAllRelatedOccursImpl fuel Index Sym RoleSet ([], lg) = Some (L, lg')"
  shows "distinct (map occUSR L)
       \<and> occUSR ` set L = {v. (getUSR Sym, v) \<in> (relatedStep Index RoleSet)\<^sup>+}"
proof -
  from assms obtain n where n: "fuel = Suc n" by (cases fuel) auto
  with assms getAllRelatedOccursImpl_walk [of n Index Sym RoleSet "[]" lg]
  have "walk n (relatedCandidates Index RoleSet) occUSR
          (relatedOccurrencesByUSR (SymIndex Index) (getUSR Sym) RoleSet) [] = Some L"
    by (simp del: getAllRelatedOccursImpl.simps)
  then have w: "walked (relatedCandidates Index RoleSet) occUSR
          (relatedOccurrencesByUSR (SymIndex Index) (getUSR Sym) RoleSet) [] L"
    by (rule walk_walked)
  then have d: "distinct (map occUSR L)"
    and r: "set L \<subseteq> reach (relatedCandidates Index RoleSet)
                (relatedOccurrencesByUSR (SymIndex Index) (getUSR Sym) RoleSet)"
    unfolding walked_def by auto
  have "occUSR ` set L = {v. (getUSR Sym, v) \<in> (relatedStep Index RoleSet)\<^sup>+}"
  proof (intro equalityI subsetI)
    fix v assume "v \<in> occUSR ` set L"
    then obtain x where "x \<in> set L" "v = occUSR x" by auto
    with r related_reach_trancl [of x Index RoleSet "getUSR Sym"]
    show "v \<in> {v. (getUSR Sym, v) \<in> (relatedStep Index RoleSet)\<^sup>+}" by auto
  next
    fix v assume "v \<in> {v. (getUSR Sym, v) \<in> (relatedStep Index RoleSet)\<^sup>+}"
    then show "v \<in> occUSR ` set L"
      using related_trancl_walked [OF w] by simp
  qed
  with d show ?thesis by simp
qed

lemma reach_start_subset: "set cs \<subseteq> reach s cs"
  by (auto intro: reach.start)

lemma collect_loop:
  assumes "foreachAll cs
       (\<lambda>clsSym st.
          case getBaseMethodsOrClassesImpl fuel Index clsSym st of
            None \<Rightarrow> None
          | Some (ClassSyms, lg') \<Rightarrow> Some (ClassSyms @ [clsSym], lg'))
       (L, lg) = Some (L', lg')"
    and "basesClosed Index L"
    and "set L \<subseteq> reach (baseCandidates Index) C"
    and "set cs \<subseteq> set C"
  shows "set L \<union> set cs \<subseteq> set L' \<and> basesClosed Index L'
       \<and> set L' \<subseteq> reach (baseCandidates Index) C"
  using assms
proof (induction cs arbitrary: L lg)
  case Nil
  then show ?case by simp
next
  case (Cons c cs)
  from Cons.prems(1) obtain L1 lg1 where
    i: "getBaseMethodsOrClassesImpl fuel Index c (L, lg) = Some (L1, lg1)"
    and rest: "foreachAll cs
       (\<lambda>clsSym st.
          case getBaseMethodsOrClassesImpl fuel Index clsSym st of
            None \<Rightarrow> None
          | Some (ClassSyms, lg') \<Rightarrow> Some (ClassSyms @ [clsSym], lg'))
       (L1 @ [c], lg1) = Some (L', lg')"
    by (auto split: option.splits simp del: getBaseMethodsOrClassesImpl.simps)
  from i obtain n where n: "fuel = Suc n" by (cases fuel) auto
  with i getBaseMethodsOrClassesImpl_walk [of n Index c L lg]
  have "walk n (baseCandidates Index) getUSR (baseCandidates Index c) L = Some L1"
    by (simp del: getBaseMethodsOrClassesImpl.simps)
  then have "walked (baseCandidates Index) getUSR (baseCandidates Index c) L L1"
    by (rule walk_walked)
  then obtain A where A: "L1 = L @ A"
     "set A \<subseteq> reach (baseCandidates Index) (baseCandidates Index c)"
     "\<forall>d \<in> set (baseCandidates Index c). getUSR d \<in> getUSR ` set L1"
     "\<forall>x \<in> set A. \<forall>d \<in> set (baseCandidates Index x). getUSR d \<in> getUSR ` set L1"
    unfolding walked_def by blast
  have cC: "c \<in> reach (baseCandidates Index) C"
    using Cons.prems(4) by (auto intro: reach.start)
  then have sc: "set (baseCandidates Index c) \<subseteq> reach (baseCandidates Index) C"
    by (auto intro: reach.step)
  have AC: "set A \<subseteq> reach (baseCandidates Index) C"
  proof
    fix x assume "x \<in> set A"
    with A(2) have "x \<in> reach (baseCandidates Index) (baseCandidates Index c)" by blast
    then show "x \<in> reach (baseCandidates Index) C" using sc by (rule reach_mono_start)
  qed
  have closed: "basesClosed Index (L1 @ [c])"
    unfolding basesClosed_def
  proof (intro ballI)
    fix x d assume x: "x \<in> set (L1 @ [c])" and d: "d \<in> set (baseCandidates Index x)"
    from x A(1) consider "x \<in> set L" | "x \<in> set A" | "x = c" by auto
    then have "getUSR d \<in> getUSR ` set L1"
    proof cases
      case 1
      with Cons.prems(2) d have "getUSR d \<in> getUSR ` set L"
        unfolding basesClosed_def by blast
      with A(1) show ?thesis by auto
    next
      case 2
      with A(4) d show ?thesis by blast
    next
      case 3
      with A(3) d show ?thesis by blast
    qed
    then show "getUSR d \<in> getUSR ` set (L1 @ [c])" by auto
  qed
  have sub: "set (L1 @ [c]) \<subseteq> reach (baseCandidates Index) C"
    using A(1) AC cC Cons.prems(3) by auto
  have csC: "set cs \<subseteq> set C" using Cons.prems(4) by simp
  from Cons.IH [OF rest closed sub csC]
  have r: "set (L1 @ [c]) \<union> set cs \<subseteq> set L'" and "basesClosed Index L'"
       and "set L' \<subseteq> reach (baseCandidates Index) C" by simp_all
  moreover have "set L \<union> set (c # cs) \<subseteq> set (L1 @ [c]) \<union> set cs"
    using A(1) by auto
  ultimately show ?case by (meson order_trans)
qed

lemma collectClassSyms_spec:
  assumes "collectClassSyms fuel Index C lg = Some (ClassSyms, lg')"
  shows "set C \<subseteq> set ClassSyms \<and> basesClosed Index ClassSyms
       \<and> set ClassSyms \<subseteq> reach (baseCandidates Index) C"
  using collect_loop [of C fuel Index "[]" lg ClassSyms lg' C] assms
  by (simp add: collectClassSyms_def basesClosed_def)

lemma collect_loop_total:
  assumes "finite (indexUSRs Index)" and "card (indexUSRs Index) < fuel"
  shows "\<exists>L' lg'. foreachAll cs
       (\<lambda>clsSym st.
          case getBaseMethodsOrClassesImpl fuel Index clsSym st of
            None \<Rightarrow> None
          | Some (ClassSyms, lg') \<Rightarrow> Some (ClassSyms @ [clsSym], lg'))
       (L, lg) = Some (L', lg')"
proof (induction cs arbitrary: L lg)
  case Nil
  show ?case by simp
next
  case (Cons c cs)
  from getBaseMethodsOrClassesImpl_total [OF assms, of c L lg] obtain L1 lg1
    where i: "getBaseMethodsOrClassesImpl fuel Index c (L, lg) = Some (L1, lg1)" by blast
  from Cons.IH [of "L1 @ [c]" lg1] i show ?case
    by (simp del: getBaseMethodsOrClassesImpl.simps)
qed

lemma collectClassSyms_total:
  assumes "finite (indexUSRs Index)" and "card (indexUSRs Index) < fuel"
  shows "\<exists>ClassSyms lg'. collectClassSyms fuel Index C lg = Some (ClassSyms, lg')"
  unfolding collectClassSyms_def by (rule collect_loop_total [OF assms])


lemma addRelatedEntry_log:
  "foreachAll cs (addRelatedEntry n Index RoleSet) (L, lg) = Some (L', lg') \<Longrightarrow>
   \<exists>qs. lg' = lg @ qs \<and> set qs \<subseteq> range (\<lambda>u. QueryRelatedOccurrences u RoleSet)"
proof (induction n arbitrary: cs L lg L' lg')
  case 0
  then show ?case
  proof (induction cs arbitrary: L lg)
    case Nil
    then show ?case by simp
  next
    case (Cons c cs)
    from Cons.prems have "addRelatedEntry 0 Index RoleSet c (L, lg) = Some (L, lg)"
      by (auto simp: addRelatedEntry_def split: if_splits option.splits)
    with Cons.prems have "foreachAll cs (addRelatedEntry 0 Index RoleSet) (L, lg) = Some (L', lg')"
      by simp
    then show ?case by (rule Cons.IH)
  qed
next
  case (Suc n)
  note outer = Suc.IH
  from Suc.prems show ?case
  proof (induction cs arbitrary: L lg)
    case Nil
    then show ?case by simp
  next
    case (Cons c cs)
    from Cons.prems obtain L1 lg1 where
      e: "addRelatedEntry (Suc n) Index RoleSet c (L, lg) = Some (L1, lg1)"
      and r: "foreachAll cs (addRelatedEntry (Suc n) Index RoleSet) (L1, lg1) = Some (L', lg')"
      by (auto split: option.splits)
    have "\<exists>qs. lg1 = lg @ qs \<and> set qs \<subseteq> range (\<lambda>u. QueryRelatedOccurrences u RoleSet)"
    proof (cases "containsSymWithUSR_occ (getSymbol c) L")
      case True
      with e show ?thesis
        by (simp add: addRelatedEntry_def del: containsSymWithUSR_occ.simps)
    next
      case False
      with e have "foreachAll (relatedOccurrencesByUSR (SymIndex Index) (getUSR (getSymbol c)) RoleSet)
          (addRelatedEntry n Index RoleSet)
          (L @ [c], lg @ [QueryRelatedOccurrences (getUSR (getSymbol c)) RoleSet]) = Some (L1, lg1)"
        by (simp add: addRelatedEntry_def getAllRelatedOccursImpl_Suc
              del: getAllRelatedOccursImpl.simps containsSymWithUSR_occ.simps)
      from outer [OF this] obtain qs where
        "lg1 = (lg @ [QueryRelatedOccurrences (getUSR (getSymbol c)) RoleSet]) @ qs"
        "set qs \<subseteq> range (\<lambda>u. QueryRelatedOccurrences u RoleSet)" by blast
      then have "lg1 = lg @ (QueryRelatedOccurrences (getUSR (getSymbol c)) RoleSet # qs)"
        "set (QueryRelatedOccurrences (getUSR (getSymbol c)) RoleSet # qs)
           \<subseteq> range (\<lambda>u. QueryRelatedOccurrences u RoleSet)" by auto
      then show ?thesis by blast
    qed
    then obtain qs1 where q1: "lg1 = lg @ qs1"
      "set qs1 \<subseteq> range (\<lambda>u. QueryRelatedOccurrences u RoleSet)" by blast
    from Cons.IH [OF r] obtain qs2 where q2: "lg' = lg1 @ qs2"
      "set qs2 \<subseteq> range (\<lambda>u. QueryRelatedOccurrences u RoleSet)" by blast
    from q1 q2 have "lg' = lg @ (qs1 @ qs2)"
      "set (qs1 @ qs2) \<subseteq> range (\<lambda>u. QueryRelatedOccurrences u RoleSet)" by auto
    then show ?case by blast
  qed
qed

lemma getAllRelatedOccursImpl_log:
  assumes "getAllRelatedOccursImpl fuel Index Sym RoleSet (L, lg) = Some (L', lg')"
  shows "\<exists>qs. lg' = lg @ qs \<and> set qs \<subseteq> range (\<lambda>u. QueryRelatedOccurrences u RoleSet)"
proof -
  from assms obtain n where n: "fuel = Suc n" by (cases fuel) auto
  with assms have "foreachAll (relatedOccurrencesByUSR (SymIndex Index) (getUSR Sym) RoleSet)
       (addRelatedEntry n Index RoleSet)
       (L, lg @ [QueryRelatedOccurrences (getUSR Sym) RoleSet]) = Some (L', lg')"
    by (simp add: getAllRelatedOccursImpl_Suc del: getAllRelatedOccursImpl.simps)
  from addRelatedEntry_log [OF this] obtain qs where
    "lg' = (lg @ [QueryRelatedOccurrences (getUSR Sym) RoleSet]) @ qs"
    "set qs \<subseteq> range (\<lambda>u. QueryRelatedOccurrences u RoleSet)" by blast
  then have "lg' = lg @ (QueryRelatedOccurrences (getUSR Sym) RoleSet # qs)"
    "set (QueryRelatedOccurrences (getUSR Sym) RoleSet # qs)
       \<subseteq> range (\<lambda>u. QueryRelatedOccurrences u RoleSet)" by auto
  then show ?thesis by blast
qed


section \<open>Facts about the example indexes\<close>

lemma lookupTable_subset: "x \<in> set (lookupTable T USR RoleSet) \<Longrightarrow> x \<in> set (concat (map snd T))"
  unfolding lookupTable_def set_concat set_map set_filter by blast

lemma indexUSRs_tableIndex:
  "indexUSRs (tableIndex Occs Rels) \<subseteq> set (tableUSRs Occs Rels)"
proof
  fix u assume "u \<in> indexUSRs (tableIndex Occs Rels)"
  then consider
      (rel) USR RoleSet Occur where "Occur \<in> set (lookupTable Rels USR RoleSet)" "u = occUSR Occur"
    | (occ) USR RoleSet Occur Rel where "Occur \<in> set (lookupTable Occs USR RoleSet)"
        "Rel \<in> set (getRelations Occur)" "u = getUSR (snd Rel)"
    unfolding indexUSRs_def tableIndex_def by auto
  then show "u \<in> set (tableUSRs Occs Rels)"
  proof cases
    case rel
    from lookupTable_subset [OF rel(1)] rel(2)
    have "u \<in> occUSR ` set (concat (map snd Rels))" by blast
    then show ?thesis unfolding tableUSRs_def by simp
  next
    case occ
    have "u \<in> set (map (\<lambda>Rel. getUSR (snd Rel)) (getRelations Occur))"
      using occ(2,3) by auto
    moreover have "Occur \<in> set (concat (map snd Occs))"
      using lookupTable_subset [OF occ(1)] .
    ultimately have "\<exists>Oc \<in> set (concat (map snd Occs)).
        u \<in> set (map (\<lambda>Rel. getUSR (snd Rel)) (getRelations Oc))"
      by (rule_tac x = Occur in bexI)
    then show ?thesis unfolding tableUSRs_def by auto
  qed
qed

lemma tableIndex_finite:
  "finite (indexUSRs (tableIndex Occs Rels))"
  using indexUSRs_tableIndex by (rule finite_subset) simp

lemma tableIndex_card:
  "card (indexUSRs (tableIndex Occs Rels)) \<le> length (remdups (tableUSRs Occs Rels))"
  using card_mono [OF _ indexUSRs_tableIndex, of Occs Rels] by (simp add: card_set)

lemma cyclicIndex_card: "card (indexUSRs cyclicIndex) < 3"
proof -
  have "length (remdups (tableUSRs []
       [((''c:A'', RelationBaseOf), [occ classB {} [({RelationBaseOf}, classA)] 1]),
        ((''c:B'', RelationBaseOf), [occ classA {} [({RelationBaseOf}, classB)] 2])])) = 2"
    by (simp add: tableUSRs_def occUSR_def occ_def classA_def classB_def sym_def)
  with tableIndex_card [of "[]" "[((''c:A'', RelationBaseOf), [occ classB {} [({RelationBaseOf}, classA)] 1]),
        ((''c:B'', RelationBaseOf), [occ classA {} [({RelationBaseOf}, classB)] 2])]"]
  show ?thesis unfolding cyclicIndex_def by simp
qed

lemma cyclicIndex_finite: "finite (indexUSRs cyclicIndex)"
  unfolding cyclicIndex_def by (rule tableIndex_finite)

lemma cyclicIndex_rel:
  "relatedOccurrencesByUSR (SymIndex cyclicIndex) USR RoleSet =
     (if USR = ''c:A'' \<and> RelationBaseOf \<in> RoleSet
      then [occ classB {} [({RelationBaseOf}, classA)] 1]
      else if USR = ''c:B'' \<and> RelationBaseOf \<in> RoleSet
      then [occ classA {} [({RelationBaseOf}, classB)] 2] else [])"
  by (simp add: cyclicIndex_def tableIndex_def lookupTable_def)


lemma hierarchy_bases:
  "baseCandidates hierarchyIndex classD = [classB]"
  "baseCandidates hierarchyIndex classB = [classA]"
  "baseCandidates hierarchyIndex classA = []"
  by (simp_all add: baseCandidates_def hierarchyIndex_def tableIndex_def lookupTable_def
        hierarchyRels_def classD_def classB_def classA_def sym_def occ_def)

lemma hierarchy_reach:
  "x \<in> reach (baseCandidates hierarchyIndex) (baseCandidates hierarchyIndex classD) \<Longrightarrow>
   x = classB \<or> x = classA"
  by (induction rule: reach.induct) (auto simp: hierarchy_bases)

lemma hierarchyIndex_finite: "finite (indexUSRs hierarchyIndex)"
  unfolding hierarchyIndex_def by (rule tableIndex_finite)

lemma hierarchyIndex_card: "card (indexUSRs hierarchyIndex) < 8"
proof -
  have "length (remdups (tableUSRs hierarchyOccs hierarchyRels)) = 6"
    by (simp add: tableUSRs_def occUSR_def hierarchyOccs_def hierarchyRels_def callX_def callY_def
        callW_def callS_def callZ_def occ_def classA_def classB_def classD_def classU_def
        methM_def methMA_def methMB_def sym_def)
  with tableIndex_card [of hierarchyOccs hierarchyRels]
  show ?thesis unfolding hierarchyIndex_def by simp
qed

lemma hierarchy_rel:
  "relatedOccurrencesByUSR (SymIndex hierarchyIndex) USR RoleSet = lookupTable hierarchyRels USR RoleSet"
  "occurrencesByUSR (SymIndex hierarchyIndex) USR RoleSet = lookupTable hierarchyOccs USR RoleSet"
  by (simp_all add: hierarchyIndex_def tableIndex_def)


lemmas example_defs =
  occ_def sym_def symF_def symV_def classA_def classB_def classD_def classU_def
  methM_def methMA_def methMB_def methM1_def methM2_def protoP_def extE_def
  callX_def callY_def callW_def callS_def callZ_def
  siteA_def siteB_def siteC_def defM1_def defM2_def protoCallee_def extCallee_def
  collectAll_def collectOne_def

lemma hierarchyIndex_queries:
  "relatedOccurrencesByUSR (SymIndex hierarchyIndex) = lookupTable hierarchyRels"
  "occurrencesByUSR (SymIndex hierarchyIndex) = lookupTable hierarchyOccs"
  by (simp_all add: hierarchyIndex_def tableIndex_def)

lemma extensionIndex_queries:
  "relatedOccurrencesByUSR (SymIndex extensionIndex) =
     lookupTable (((''c:E'', RelationExtendedBy),
           [occ classD {RelationExtendedBy} [({RelationExtendedBy}, extE)] 207,
            occ classU {RelationExtendedBy} [({RelationExtendedBy}, extE)] 208])
        # hierarchyRels)"
  "occurrencesByUSR (SymIndex extensionIndex) = lookupTable hierarchyOccs"
  by (simp_all add: extensionIndex_def tableIndex_def)

lemma fuel_8: "(8::nat) = Suc (Suc (Suc (Suc (Suc (Suc (Suc (Suc 0)))))))"
  by simp

lemma extension_run:
  "foreachSymbolCallOccurrence 8 extensionIndex extCallee collectAll ([], [])
     = Some (True, [callX, callW, callZ],
         [QueryOccurrences ''c:m'' {Call}, ReceiverCall callX,
          QueryRelatedOccurrences ''c:E'' {RelationExtendedBy},
          QueryRelatedOccurrences ''c:D'' {RelationBaseOf},
          QueryRelatedOccurrences ''c:B'' {RelationBaseOf},
          QueryRelatedOccurrences ''c:A'' {RelationBaseOf},
          QueryOccurrences ''c:m'' {RelationOverrideOf},
          QueryOccurrences ''c:mB'' {RelationOverrideOf},
          QueryOccurrences ''c:mA'' {RelationOverrideOf},
          QueryOccurrences ''c:mB'' {Call}, ReceiverCall callW,
          QueryOccurrences ''c:mA'' {Call}, ReceiverCall callZ])"
  by (simp add: foreachSymbolCallOccurrence_def dynamicCallers_def baseMethodCallers_def
        collectClassSyms_def getBaseMethodsOrClasses_def dispatchReceiver_def callReceiver_def
        foreachSymbolOccurrenceByUSR_def SymbolIndex_foreachSymbolOccurrenceByUSR_def
        foreachRelatedSymbolOccurrenceByUSR_def SymbolIndex_foreachRelatedSymbolOccurrenceByUSR_def
        foreachRelatedSymbol_def relatedSymbols_def
        extensionIndex_queries lookupTable_def hierarchyOccs_def hierarchyRels_def
        fuel_8 Let_def example_defs)



lemma protocolIndex_queries:
  "relatedOccurrencesByUSR (SymIndex protocolIndex) = lookupTable protocolRels"
  "occurrencesByUSR (SymIndex protocolIndex) = lookupTable protocolOccs"
  by (simp_all add: protocolIndex_def tableIndex_def)

lemma protocolIndex_finite: "finite (indexUSRs protocolIndex)"
  unfolding protocolIndex_def by (rule tableIndex_finite)

lemma protocolIndex_card: "card (indexUSRs protocolIndex) < 8"
proof -
  have "length (remdups (tableUSRs protocolOccs protocolRels)) = 2"
    by (simp add: tableUSRs_def occUSR_def protocolOccs_def protocolRels_def example_defs)
  with tableIndex_card [of protocolOccs protocolRels]
  show ?thesis unfolding protocolIndex_def by simp
qed

lemmas run_defs =
  foreachSymbolCallOccurrence_def dynamicCallers_def baseMethodCallers_def protocolCallers_def
  collectClassSyms_def getBaseMethodsOrClasses_def dispatchReceiver_def callReceiver_def
  foreachSymbolOccurrenceByUSR_def SymbolIndex_foreachSymbolOccurrenceByUSR_def
  foreachRelatedSymbolOccurrenceByUSR_def SymbolIndex_foreachRelatedSymbolOccurrenceByUSR_def
  foreachRelatedSymbol_def relatedSymbols_def lookupTable_def fuel_8 Let_def

lemma protocol_run:
  "foreachSymbolCallOccurrence 8 protocolIndex protoCallee collectAll ([], [])
     = Some (True, [siteA, siteB, siteC],
         [QueryOccurrences ''c:m'' {Call}, ReceiverCall siteA,
          QueryRelatedOccurrences ''c:m'' {RelationOverrideOf},
          QueryRelatedOccurrences ''c:m1'' {RelationOverrideOf},
          QueryRelatedOccurrences ''c:m2'' {RelationOverrideOf},
          QueryOccurrences ''c:m1'' {Call}, ReceiverCall siteB,
          QueryOccurrences ''c:m2'' {Call}, ReceiverCall siteC])"
  by (simp add: run_defs protocolIndex_queries protocolOccs_def protocolRels_def example_defs)

lemma protocol_run_stopped:
  "foreachSymbolCallOccurrence 8 protocolIndex protoCallee (collectUpTo siteB) ([], [])
     = Some (False, [siteA, siteB],
         [QueryOccurrences ''c:m'' {Call}, ReceiverCall siteA,
          QueryRelatedOccurrences ''c:m'' {RelationOverrideOf},
          QueryRelatedOccurrences ''c:m1'' {RelationOverrideOf},
          QueryRelatedOccurrences ''c:m2'' {RelationOverrideOf},
          QueryOccurrences ''c:m1'' {Call}, ReceiverCall siteB])"
  by (simp add: run_defs protocolIndex_queries protocolOccs_def protocolRels_def
        collectUpTo_def example_defs)

lemma hierarchy_run:
  "foreachSymbolCallOccurrence 8 hierarchyIndex callX collectAll ([], [])
     = Some (True, [callX, callW, callZ],
         [QueryOccurrences ''c:m'' {Call}, ReceiverCall callX,
          QueryRelatedOccurrences ''c:D'' {RelationBaseOf},
          QueryRelatedOccurrences ''c:B'' {RelationBaseOf},
          QueryRelatedOccurrences ''c:A'' {RelationBaseOf},
          QueryOccurrences ''c:m'' {RelationOverrideOf},
          QueryOccurrences ''c:mB'' {RelationOverrideOf},
          QueryOccurrences ''c:mA'' {RelationOverrideOf},
          QueryOccurrences ''c:mB'' {Call}, ReceiverCall callW,
          QueryOccurrences ''c:mA'' {Call}, ReceiverCall callZ])"
  by (simp add: run_defs hierarchyIndex_queries hierarchyOccs_def hierarchyRels_def example_defs)

lemma hierarchy_run_stopped:
  "foreachSymbolCallOccurrence 8 hierarchyIndex callX (collectUpTo callW) ([], [])
     = Some (False, [callX, callW],
         [QueryOccurrences ''c:m'' {Call}, ReceiverCall callX,
          QueryRelatedOccurrences ''c:D'' {RelationBaseOf},
          QueryRelatedOccurrences ''c:B'' {RelationBaseOf},
          QueryRelatedOccurrences ''c:A'' {RelationBaseOf},
          QueryOccurrences ''c:m'' {RelationOverrideOf},
          QueryOccurrences ''c:mB'' {RelationOverrideOf},
          QueryOccurrences ''c:mA'' {RelationOverrideOf},
          QueryOccurrences ''c:mB'' {Call}, ReceiverCall callW])"
  by (simp add: run_defs hierarchyIndex_queries hierarchyOccs_def hierarchyRels_def
        collectUpTo_def example_defs)


section \<open>Fuel only bounds the depth\<close>

text \<open>A result obtained with some fuel is the result with any larger fuel: list, receiver
  state and log. So the fuel does not influence what is computed, only whether the model
  gets to the end of the recursion.\<close>

lemma addBaseEntry_fuel_mono:
  "foreachAll cs (addBaseEntry n Index) st = Some r \<Longrightarrow> n \<le> m \<Longrightarrow>
   foreachAll cs (addBaseEntry m Index) st = Some r"
proof (induction n arbitrary: m cs st r)
  case 0
  then show ?case
  proof (induction cs arbitrary: st)
    case Nil
    then show ?case by simp
  next
    case (Cons c cs)
    from Cons.prems(1) have k: "containsSymWithUSR c (fst st)"
      by (auto simp: addBaseEntry_def split: if_splits option.splits
               simp del: containsSymWithUSR.simps)
    then have e: "addBaseEntry 0 Index c st = Some st" "addBaseEntry m Index c st = Some st"
      by (simp_all add: addBaseEntry_def del: containsSymWithUSR.simps)
    with Cons.prems(1) have "foreachAll cs (addBaseEntry 0 Index) st = Some r"
      by simp
    from Cons.IH [OF this Cons.prems(2)] e show ?case
      by simp
  qed
next
  case (Suc n)
  note outer = Suc.IH
  from Suc.prems(2) obtain m' where m: "m = Suc m'" and le: "n \<le> m'" by (cases m) auto
  from Suc.prems(1) show ?case
  proof (induction cs arbitrary: st)
    case Nil
    then show ?case by simp
  next
    case (Cons c cs)
    from Cons.prems obtain st1 where
      e: "addBaseEntry (Suc n) Index c st = Some st1"
      and r: "foreachAll cs (addBaseEntry (Suc n) Index) st1 = Some r"
      by (auto split: option.splits)
    have "addBaseEntry m Index c st = Some st1"
    proof (cases "containsSymWithUSR c (fst st)")
      case True
      with e show ?thesis by (simp add: addBaseEntry_def del: containsSymWithUSR.simps)
    next
      case False
      have u: "addBaseEntry (Suc k) Index c st
                 = getBaseMethodsOrClassesImpl (Suc k) Index c (fst st @ [c], snd st)" for k
        using False
        by (simp add: addBaseEntry_def
              del: containsSymWithUSR.simps getBaseMethodsOrClassesImpl.simps)
      from e have "foreachAll (baseCandidates Index c) (addBaseEntry n Index)
                     (fst st @ [c], snd st @ [baseQuery c]) = Some st1"
        by (simp only: u getBaseMethodsOrClassesImpl_Suc)
      from outer [OF this le]
      have "getBaseMethodsOrClassesImpl (Suc m') Index c (fst st @ [c], snd st) = Some st1"
        by (simp only: getBaseMethodsOrClassesImpl_Suc)
      then show ?thesis by (simp only: m u)
    qed
    with Cons.IH [OF r] show ?case by simp
  qed
qed

lemma getBaseMethodsOrClassesImpl_fuel_mono:
  assumes "getBaseMethodsOrClassesImpl n Index Sym st = Some r" and "n \<le> m"
  shows "getBaseMethodsOrClassesImpl m Index Sym st = Some r"
proof -
  from assms(1) obtain n' where n: "n = Suc n'" by (cases n) auto
  with assms(2) obtain m' where m: "m = Suc m'" and le: "n' \<le> m'" by (cases m) auto
  obtain L lg where st: "st = (L, lg)" by (cases st)
  from assms(1) n st have "foreachAll (baseCandidates Index Sym) (addBaseEntry n' Index)
       (L, lg @ [baseQuery Sym]) = Some r"
    by (simp add: getBaseMethodsOrClassesImpl_Suc del: getBaseMethodsOrClassesImpl.simps)
  from addBaseEntry_fuel_mono [OF this le] m st show ?thesis
    by (simp add: getBaseMethodsOrClassesImpl_Suc del: getBaseMethodsOrClassesImpl.simps)
qed

lemma addRelatedEntry_fuel_mono:
  "foreachAll cs (addRelatedEntry n Index RoleSet) st = Some r \<Longrightarrow> n \<le> m \<Longrightarrow>
   foreachAll cs (addRelatedEntry m Index RoleSet) st = Some r"
proof (induction n arbitrary: m cs st r)
  case 0
  then show ?case
  proof (induction cs arbitrary: st)
    case Nil
    then show ?case by simp
  next
    case (Cons c cs)
    from Cons.prems(1) have k: "containsSymWithUSR_occ (getSymbol c) (fst st)"
      by (auto simp: addRelatedEntry_def split: if_splits option.splits
               simp del: containsSymWithUSR_occ.simps)
    then have e: "addRelatedEntry 0 Index RoleSet c st = Some st"
        "addRelatedEntry m Index RoleSet c st = Some st"
      by (simp_all add: addRelatedEntry_def del: containsSymWithUSR_occ.simps)
    with Cons.prems(1) have "foreachAll cs (addRelatedEntry 0 Index RoleSet) st = Some r"
      by simp
    from Cons.IH [OF this Cons.prems(2)] e show ?case
      by simp
  qed
next
  case (Suc n)
  note outer = Suc.IH
  from Suc.prems(2) obtain m' where m: "m = Suc m'" and le: "n \<le> m'" by (cases m) auto
  from Suc.prems(1) show ?case
  proof (induction cs arbitrary: st)
    case Nil
    then show ?case by simp
  next
    case (Cons c cs)
    let ?q = "QueryRelatedOccurrences (getUSR (getSymbol c)) RoleSet"
    from Cons.prems obtain st1 where
      e: "addRelatedEntry (Suc n) Index RoleSet c st = Some st1"
      and r: "foreachAll cs (addRelatedEntry (Suc n) Index RoleSet) st1 = Some r"
      by (auto split: option.splits)
    have "addRelatedEntry m Index RoleSet c st = Some st1"
    proof (cases "containsSymWithUSR_occ (getSymbol c) (fst st)")
      case True
      with e show ?thesis by (simp add: addRelatedEntry_def del: containsSymWithUSR_occ.simps)
    next
      case False
      have u: "addRelatedEntry (Suc k) Index RoleSet c st
                 = getAllRelatedOccursImpl (Suc k) Index (getSymbol c) RoleSet
                     (fst st @ [c], snd st)" for k
        using False
        by (simp add: addRelatedEntry_def
              del: containsSymWithUSR_occ.simps getAllRelatedOccursImpl.simps)
      from e have "foreachAll (relatedOccurrencesByUSR (SymIndex Index) (getUSR (getSymbol c)) RoleSet)
                     (addRelatedEntry n Index RoleSet)
                     (fst st @ [c], snd st @ [?q]) = Some st1"
        by (simp only: u getAllRelatedOccursImpl_Suc)
      from outer [OF this le]
      have "getAllRelatedOccursImpl (Suc m') Index (getSymbol c) RoleSet
              (fst st @ [c], snd st) = Some st1"
        by (simp only: getAllRelatedOccursImpl_Suc)
      then show ?thesis by (simp only: m u)
    qed
    with Cons.IH [OF r] show ?case by simp
  qed
qed

lemma getAllRelatedOccursImpl_fuel_mono:
  assumes "getAllRelatedOccursImpl n Index Sym RoleSet st = Some r" and "n \<le> m"
  shows "getAllRelatedOccursImpl m Index Sym RoleSet st = Some r"
proof -
  from assms(1) obtain n' where n: "n = Suc n'" by (cases n) auto
  with assms(2) obtain m' where m: "m = Suc m'" and le: "n' \<le> m'" by (cases m) auto
  obtain L lg where st: "st = (L, lg)" by (cases st)
  from assms(1) n st have "foreachAll (relatedOccurrencesByUSR (SymIndex Index) (getUSR Sym) RoleSet)
       (addRelatedEntry n' Index RoleSet)
       (L, lg @ [QueryRelatedOccurrences (getUSR Sym) RoleSet]) = Some r"
    by (simp add: getAllRelatedOccursImpl_Suc del: getAllRelatedOccursImpl.simps)
  from addRelatedEntry_fuel_mono [OF this le] m st show ?thesis
    by (simp add: getAllRelatedOccursImpl_Suc del: getAllRelatedOccursImpl.simps)
qed

lemma collect_loop_fuel_mono:
  assumes "n \<le> m"
  shows "foreachAll cs
       (\<lambda>clsSym st.
          case getBaseMethodsOrClassesImpl n Index clsSym st of
            None \<Rightarrow> None
          | Some (ClassSyms, lg') \<Rightarrow> Some (ClassSyms @ [clsSym], lg'))
       st = Some r \<Longrightarrow>
     foreachAll cs
       (\<lambda>clsSym st.
          case getBaseMethodsOrClassesImpl m Index clsSym st of
            None \<Rightarrow> None
          | Some (ClassSyms, lg') \<Rightarrow> Some (ClassSyms @ [clsSym], lg'))
       st = Some r"
proof (induction cs arbitrary: st)
  case Nil
  then show ?case by simp
next
  case (Cons c cs)
  from Cons.prems obtain L1 lg1 where
    i: "getBaseMethodsOrClassesImpl n Index c st = Some (L1, lg1)"
    and rest: "foreachAll cs
       (\<lambda>clsSym st.
          case getBaseMethodsOrClassesImpl n Index clsSym st of
            None \<Rightarrow> None
          | Some (ClassSyms, lg') \<Rightarrow> Some (ClassSyms @ [clsSym], lg'))
       (L1 @ [c], lg1) = Some r"
    by (auto split: option.splits simp del: getBaseMethodsOrClassesImpl.simps)
  from getBaseMethodsOrClassesImpl_fuel_mono [OF i assms] Cons.IH [OF rest]
  show ?case by (simp del: getBaseMethodsOrClassesImpl.simps)
qed

lemma foreachSymbolCallOccurrence_fuel_mono:
  assumes "foreachSymbolCallOccurrence n Index Callee R w = Some r" and "n \<le> m"
  shows "foreachSymbolCallOccurrence m Index Callee R w = Some r"
proof (cases "isCallable (getSymbol Callee)")
  case False
  with assms(1) show ?thesis by (simp add: foreachSymbolCallOccurrence_def)
next
  case True
  obtain s lg where w: "w = (s, lg)" by (cases w)
  obtain b s1 ds where d: "deliver R
       (occurrencesByUSR (SymIndex Index) (getUSR (getSymbol Callee)) {Call}) s = (b, s1, ds)"
    by (cases "deliver R
       (occurrencesByUSR (SymIndex Index) (getUSR (getSymbol Callee)) {Call}) s") auto
  let ?lg1 = "lg @ QueryOccurrences (getUSR (getSymbol Callee)) {Call} # map ReceiverCall ds"
  let ?lg2 = "?lg1 @ extensionQueries (collectedClasses Callee)"
  let ?C = "receiverClasses Index Callee"
  show ?thesis
  proof (cases "b \<and> Dynamic \<in> getRoles Callee \<and> ?C \<noteq> []")
    case False
    with assms(1) True w d show ?thesis
      by (auto simp: foreachSymbolCallOccurrence_def direct_calls dynamicCallers_eq Let_def)
  next
    case dynC: True
    show ?thesis
    proof (cases "getSymbolKind (?C ! 0) = Protocol")
      case proto: True
      with assms(1) True w d dynC
      have p: "protocolCallers n Index (getSymbol Callee) R (s1, ?lg2) = Some r"
        by (simp add: foreachSymbolCallOccurrence_def direct_calls dynamicCallers_eq Let_def)
      then obtain O3 lg3 where
        c: "getAllRelatedOccursImpl n Index (getSymbol Callee) {RelationOverrideOf} ([], ?lg2)
              = Some (O3, lg3)"
        by (auto simp: protocolCallers_def split: option.splits
                 simp del: getAllRelatedOccursImpl.simps)
      from getAllRelatedOccursImpl_fuel_mono [OF c assms(2)] p c
      have "protocolCallers m Index (getSymbol Callee) R (s1, ?lg2) = Some r"
        by (simp add: protocolCallers_def del: getAllRelatedOccursImpl.simps)
      with True w d dynC proto show ?thesis
        by (simp add: foreachSymbolCallOccurrence_def direct_calls dynamicCallers_eq Let_def)
    next
      case notproto: False
      with assms(1) True w d dynC
      have p: "Option.bind (collectClassSyms n Index ?C ?lg2)
                (\<lambda>(ClassSyms, lg3).
                   baseMethodCallers n Index (getSymbol Callee) ClassSyms R (s1, lg3)) = Some r"
        by (simp add: foreachSymbolCallOccurrence_def direct_calls dynamicCallers_eq Let_def)
      then obtain ClassSyms lg3 where
        c: "collectClassSyms n Index ?C ?lg2 = Some (ClassSyms, lg3)"
        and bm: "baseMethodCallers n Index (getSymbol Callee) ClassSyms R (s1, lg3) = Some r"
        by (auto simp: bind_eq_Some_conv)
      from bm obtain M lg4 where
        g: "getBaseMethodsOrClasses n Index (getSymbol Callee) lg3 = Some (M, lg4)"
        by (auto simp: baseMethodCallers_def split: option.splits)
      from g have "getBaseMethodsOrClasses m Index (getSymbol Callee) lg3 = Some (M, lg4)"
        unfolding getBaseMethodsOrClasses_def
        by (rule getBaseMethodsOrClassesImpl_fuel_mono) (rule assms(2))
      with bm g have bm': "baseMethodCallers m Index (getSymbol Callee) ClassSyms R (s1, lg3) = Some r"
        by (simp add: baseMethodCallers_def)
      from c have "collectClassSyms m Index ?C ?lg2 = Some (ClassSyms, lg3)"
        unfolding collectClassSyms_def by (rule collect_loop_fuel_mono [OF assms(2)])
      with bm' True w d dynC notproto show ?thesis
        by (simp add: foreachSymbolCallOccurrence_def direct_calls dynamicCallers_eq Let_def)
    qed
  qed
qed


section \<open>Properties of the call-occurrence resolution\<close>

text \<open>C7: for a callee occurrence whose symbol is not callable,
  \<^verbatim>\<open>foreachSymbolCallOccurrence\<close> returns false at once: the receiver's state and the log
  of index queries and receiver invocations are what they were before the call.\<close>

theorem not_callable_returns_false:
  "\<not> isCallable (getSymbol Callee) \<Longrightarrow>
   foreachSymbolCallOccurrence fuel Index Callee Receiver w = Some (False, w)"
  by (simp add: foreachSymbolCallOccurrence_def)

theorem not_callable_returns_false_witness:
  "\<not> isCallable (getSymbol (occ symV {Call} [] 30)) \<and>
   foreachSymbolCallOccurrence 5 directIndex (occ symV {Call} [] 30) collectAll ([], [])
     = Some (False, [], [])"
  using not_callable_returns_false [of "occ symV {Call} [] 30" 5 directIndex collectAll "([], [])"]
  by (simp add: occ_def symV_def sym_def)

text \<open>C6: for a callable callee occurrence without the role \<^verbatim>\<open>Dynamic\<close>, the operation
  performs the single query for the \<^verbatim>\<open>Call\<close> occurrences of the callee's USR, invokes the
  receiver on the yielded occurrences in order until the receiver asks to stop, and returns
  whether the enumeration ran to completion; nothing else is queried or delivered.\<close>

theorem static_callee_direct_calls_only:
  assumes "isCallable (getSymbol Callee)"
    and "\<not> containsAny (getRoles Callee) {Dynamic}"
  shows "foreachSymbolCallOccurrence fuel Index Callee Receiver (s, lg) =
     (case deliver Receiver
             (occurrencesByUSR (SymIndex Index) (getUSR (getSymbol Callee)) {Call}) s of
        (b, s', ds) \<Rightarrow>
          Some (b, s', lg @ QueryOccurrences (getUSR (getSymbol Callee)) {Call}
                            # map ReceiverCall ds))"
  using assms
  by (simp add: foreachSymbolCallOccurrence_def direct_calls split: prod.splits)

theorem static_callee_direct_calls_only_witness:
  "isCallable (getSymbol (occ symF {Call} [] 10)) \<and>
   \<not> containsAny (getRoles (occ symF {Call} [] 10)) {Dynamic} \<and>
   foreachSymbolCallOccurrence 0 directIndex (occ symF {Call} [] 10) collectAll ([], []) =
     Some (True, [occ symF {Call} [] 10, occ symF {Call} [] 20],
           [QueryOccurrences ''c:f'' {Call},
            ReceiverCall (occ symF {Call} [] 10), ReceiverCall (occ symF {Call} [] 20)]) \<and>
   foreachSymbolCallOccurrence 0 directIndex (occ symF {Call} [] 10) collectOne ([], []) =
     Some (False, [occ symF {Call} [] 10],
           [QueryOccurrences ''c:f'' {Call}, ReceiverCall (occ symF {Call} [] 10)])"
  using static_callee_direct_calls_only
          [of "occ symF {Call} [] 10" 0 directIndex collectAll "[]" "[]"]
        static_callee_direct_calls_only
          [of "occ symF {Call} [] 10" 0 directIndex collectOne "[]" "[]"]
  by (simp add: occ_def symF_def sym_def containsAny_def directIndex_def tableIndex_def
        lookupTable_def collectAll_def collectOne_def)

section \<open>Properties of the closure subroutines\<close>

text \<open>C5: on an index that yields finitely many distinct USRs, both closure subroutines
  return for every symbol and every accumulated list, cycles or not, as soon as the fuel
  (the bound on the depth of the recursion) exceeds the number of those USRs: a candidate
  is recursed into only when its USR is new to the accumulated list.\<close>

theorem closure_subroutines_terminate:
  assumes "finite (indexUSRs Index)" and "card (indexUSRs Index) < fuel"
  shows "(\<exists>r. getBaseMethodsOrClassesImpl fuel Index Sym st = Some r)
       \<and> (\<exists>r. getAllRelatedOccursImpl fuel Index Sym RoleSet st' = Some r)"
  using getBaseMethodsOrClassesImpl_total [OF assms, of Sym "fst st" "snd st"]
    getAllRelatedOccursImpl_total [OF assms, of Sym RoleSet "fst st'" "snd st'"]
  by auto

theorem closure_subroutines_terminate_witness:
  "finite (indexUSRs cyclicIndex) \<and> card (indexUSRs cyclicIndex) < 3
   \<and> getBaseMethodsOrClassesImpl 3 cyclicIndex classA ([], [])
       = Some ([classB, classA],
               [QueryRelatedOccurrences ''c:A'' {RelationBaseOf},
                QueryRelatedOccurrences ''c:B'' {RelationBaseOf},
                QueryRelatedOccurrences ''c:A'' {RelationBaseOf}])
   \<and> map_option (map occUSR \<circ> fst)
        (getAllRelatedOccursImpl 3 cyclicIndex classA {RelationBaseOf} ([], []))
       = Some [''c:B'', ''c:A'']"
  using closure_subroutines_terminate
          [of cyclicIndex 3 classA "([], [])" "{RelationBaseOf}" "([], [])"]
        cyclicIndex_finite cyclicIndex_card
  by (simp add: numeral_3_eq_3 foreachRelatedSymbolOccurrenceByUSR_def
        SymbolIndex_foreachRelatedSymbolOccurrenceByUSR_def cyclicIndex_rel
        occ_def classA_def classB_def sym_def occUSR_def)


text \<open>C4 (as the code has it): on a finite index and with enough fuel,
  \<^verbatim>\<open>getBaseMethodsOrClasses\<close> returns a list without two symbols of equal USR, cycles or
  not. The start symbol is not seeded into the list: every returned symbol is reached from
  it through one or more steps of the override/base relation, so the start symbol's USR is
  absent whenever no symbol reached that way carries it.\<close>

theorem base_methods_distinct_and_reached:
  assumes "finite (indexUSRs Index)" and "card (indexUSRs Index) < fuel"
  shows "\<exists>L lg'. getBaseMethodsOrClasses fuel Index s lg = Some (L, lg')
           \<and> distinct (map getUSR L)
           \<and> set L \<subseteq> reach (baseCandidates Index) (baseCandidates Index s)
           \<and> ((\<forall>x \<in> reach (baseCandidates Index) (baseCandidates Index s). getUSR x \<noteq> getUSR s)
                \<longrightarrow> getUSR s \<notin> getUSR ` set L)"
proof -
  from getBaseMethodsOrClassesImpl_total [OF assms, of s "[]" lg]
  obtain L lg' where r: "getBaseMethodsOrClasses fuel Index s lg = Some (L, lg')"
    unfolding getBaseMethodsOrClasses_def by blast
  from getBaseMethodsOrClasses_walked [OF r]
  have d: "distinct (map getUSR L)"
    and sub: "set L \<subseteq> reach (baseCandidates Index) (baseCandidates Index s)"
    unfolding walked_def by auto
  from sub have "(\<forall>x \<in> reach (baseCandidates Index) (baseCandidates Index s). getUSR x \<noteq> getUSR s)
                \<longrightarrow> getUSR s \<notin> getUSR ` set L"
    by (metis imageE subsetD)
  with r d sub show ?thesis by blast
qed

theorem base_methods_distinct_and_reached_witness:
  "finite (indexUSRs hierarchyIndex) \<and> card (indexUSRs hierarchyIndex) < 8
   \<and> getUSR classD \<notin> getUSR ` reach (baseCandidates hierarchyIndex)
                                    (baseCandidates hierarchyIndex classD)
   \<and> getBaseMethodsOrClasses 8 hierarchyIndex classD []
       = Some ([classB, classA],
               [QueryRelatedOccurrences ''c:D'' {RelationBaseOf},
                QueryRelatedOccurrences ''c:B'' {RelationBaseOf},
                QueryRelatedOccurrences ''c:A'' {RelationBaseOf}])"
proof -
  have r: "\<forall>x \<in> reach (baseCandidates hierarchyIndex) (baseCandidates hierarchyIndex classD).
         getUSR x \<noteq> getUSR classD"
  proof
    fix x assume "x \<in> reach (baseCandidates hierarchyIndex) (baseCandidates hierarchyIndex classD)"
    then have "x = classB \<or> x = classA" by (rule hierarchy_reach)
    then show "getUSR x \<noteq> getUSR classD"
      by (auto simp: classA_def classB_def classD_def sym_def)
  qed
  have e: "getBaseMethodsOrClasses 8 hierarchyIndex classD []
       = Some ([classB, classA],
               [QueryRelatedOccurrences ''c:D'' {RelationBaseOf},
                QueryRelatedOccurrences ''c:B'' {RelationBaseOf},
                QueryRelatedOccurrences ''c:A'' {RelationBaseOf}])"
    by (simp add: getBaseMethodsOrClasses_def eval_nat_numeral
          foreachRelatedSymbolOccurrenceByUSR_def
          SymbolIndex_foreachRelatedSymbolOccurrenceByUSR_def hierarchy_rel
          lookupTable_def hierarchyRels_def classD_def classB_def classA_def sym_def occ_def)
  from base_methods_distinct_and_reached
         [OF hierarchyIndex_finite hierarchyIndex_card, of classD "[]"]
       hierarchyIndex_finite hierarchyIndex_card r e
  show ?thesis by auto
qed

text \<open>On an index where \<open>A\<close> and \<open>B\<close> are reported as bases of each other, the list
  returned for \<open>A\<close> ends with a symbol whose USR is that of \<open>A\<close>.\<close>

theorem base_methods_may_contain_start:
  "map_option (map getUSR \<circ> fst) (getBaseMethodsOrClasses 3 cyclicIndex classA [])
     = Some [''c:B'', ''c:A'']
   \<and> getUSR classA = ''c:A''"
  by (simp add: getBaseMethodsOrClasses_def numeral_3_eq_3 foreachRelatedSymbolOccurrenceByUSR_def
        SymbolIndex_foreachRelatedSymbolOccurrenceByUSR_def cyclicIndex_rel
        occ_def classA_def classB_def sym_def)


section \<open>Properties of the search for dynamic callers\<close>

text \<open>C3: extension rewriting replaces, position by position, every receiver class of kind
  \<^verbatim>\<open>Extension\<close> by the symbol of the first occurrence the index yields for its USR under
  \<^verbatim>\<open>RelationExtendedBy\<close> (one query per extension; later occurrences are not looked
  at), and leaves every other element alone. Once the direct calls have been delivered for
  a callable, dynamic callee, everything that follows (the emptiness test, the protocol
  test on the first element, the class list) is computed from the rewritten list.\<close>

theorem extensions_rewritten_before_dispatch:
  "replaceExtensions Index C lg = Some (map (extendedType Index) C, lg @ extensionQueries C)
   \<and> (isCallable (getSymbol Callee) \<and> Dynamic \<in> getRoles Callee \<and>
      foreachSymbolOccurrenceByUSR Index (getUSR (getSymbol Callee)) {Call}
        (callReceiver R) w = Some (True, s1, lg1)
      \<longrightarrow> foreachSymbolCallOccurrence fuel Index Callee R w =
            (let C' = map (extendedType Index) (collectedClasses Callee);
                 lg2 = lg1 @ extensionQueries (collectedClasses Callee)
             in if C' = [] then Some (True, s1, lg2)
                else if getSymbolKind (C' ! 0) = Protocol
                then protocolCallers fuel Index (getSymbol Callee) R (s1, lg2)
                else Option.bind (collectClassSyms fuel Index C' lg2)
                       (\<lambda>(ClassSyms, lg3).
                          baseMethodCallers fuel Index (getSymbol Callee) ClassSyms R (s1, lg3))))"
  using foreachSymbolCallOccurrence_dynamic [of Callee Index R w s1 lg1 fuel]
  by (simp add: replaceExtensions_eq dynamicCallers_eq receiverClasses_def)

theorem extensions_rewritten_before_dispatch_witness:
  "replaceExtensions extensionIndex [extE] []
     = Some ([classD], [QueryRelatedOccurrences ''c:E'' {RelationExtendedBy}])
   \<and> isCallable (getSymbol extCallee)
   \<and> Dynamic \<in> getRoles extCallee
   \<and> foreachSymbolOccurrenceByUSR extensionIndex (getUSR (getSymbol extCallee)) {Call}
        (callReceiver collectAll) ([], [])
       = Some (True, [callX], [QueryOccurrences ''c:m'' {Call}, ReceiverCall callX])
   \<and> map_option (\<lambda>r. (fst r, fst (snd r)))
        (foreachSymbolCallOccurrence 8 extensionIndex extCallee collectAll ([], []))
       = Some (True, [callX, callW, callZ])"
proof -
  have a: "replaceExtensions extensionIndex [extE] []
     = Some ([classD], [QueryRelatedOccurrences ''c:E'' {RelationExtendedBy}])"
    by (simp add: foreachRelatedSymbolOccurrenceByUSR_def
          SymbolIndex_foreachRelatedSymbolOccurrenceByUSR_def extensionIndex_queries
          lookupTable_def hierarchyRels_def example_defs)
  have b: "isCallable (getSymbol extCallee)" "Dynamic \<in> getRoles extCallee"
    by (simp_all add: example_defs)
  have c: "foreachSymbolOccurrenceByUSR extensionIndex (getUSR (getSymbol extCallee)) {Call}
        (callReceiver collectAll) ([], [])
       = Some (True, [callX], [QueryOccurrences ''c:m'' {Call}, ReceiverCall callX])"
    by (simp add: foreachSymbolOccurrenceByUSR_def SymbolIndex_foreachSymbolOccurrenceByUSR_def
          callReceiver_def extensionIndex_queries lookupTable_def hierarchyOccs_def example_defs)
  have d: "map_option (\<lambda>r. (fst r, fst (snd r)))
        (foreachSymbolCallOccurrence 8 extensionIndex extCallee collectAll ([], []))
       = Some (True, [callX, callW, callZ])"
    by (simp add: extension_run)
  from extensions_rewritten_before_dispatch
         [of extensionIndex "[extE]" "[]" extCallee collectAll "([], [])" "[callX]"
             "[QueryOccurrences ''c:m'' {Call}, ReceiverCall callX]" 8]
       a b c d
  show ?thesis by - (intro conjI, assumption+)
qed


text \<open>C10: for a callable, dynamic callee occurrence whose receiver-class set is empty
  (rewriting keeps the length, so empty after rewriting is empty before), the whole call
  consists of the direct-call phase: one query for the \<^verbatim>\<open>Call\<close> occurrences of the
  callee's USR and the receiver invocations of that enumeration. The receiver-class set is
  only looked at when that enumeration ran to completion, and then the result is true.\<close>

theorem no_receiver_class_direct_calls_only:
  assumes "isCallable (getSymbol Callee)" and "Dynamic \<in> getRoles Callee"
    and "receiverClasses Index Callee = []"
  shows "foreachSymbolCallOccurrence fuel Index Callee R (s, lg) =
           (case deliver R
                   (occurrencesByUSR (SymIndex Index) (getUSR (getSymbol Callee)) {Call}) s of
              (b, s', ds) \<Rightarrow>
                Some (b, s', lg @ QueryOccurrences (getUSR (getSymbol Callee)) {Call}
                                  # map ReceiverCall ds))
       \<and> (fst (deliver R
                  (occurrencesByUSR (SymIndex Index) (getUSR (getSymbol Callee)) {Call}) s)
            \<longrightarrow> map_option fst (foreachSymbolCallOccurrence fuel Index Callee R (s, lg))
                  = Some True)"
proof -
  from assms(3) have c: "collectedClasses Callee = []"
    by (simp add: receiverClasses_def)
  obtain b s' ds where d: "deliver R
       (occurrencesByUSR (SymIndex Index) (getUSR (getSymbol Callee)) {Call}) s = (b, s', ds)"
    by (cases "deliver R
       (occurrencesByUSR (SymIndex Index) (getUSR (getSymbol Callee)) {Call}) s") auto
  have "foreachSymbolCallOccurrence fuel Index Callee R (s, lg) =
          Some (b, s', lg @ QueryOccurrences (getUSR (getSymbol Callee)) {Call}
                            # map ReceiverCall ds)"
    using assms(1,2) d c assms(3)
    by (simp add: foreachSymbolCallOccurrence_def direct_calls dynamicCallers_eq
          extensionQueries_def Let_def)
  with d show ?thesis by simp
qed


theorem no_receiver_class_direct_calls_only_witness:
  "isCallable (getSymbol (occ methM {Call, Dynamic} [] 9))
   \<and> Dynamic \<in> getRoles (occ methM {Call, Dynamic} [] 9)
   \<and> receiverClasses hierarchyIndex (occ methM {Call, Dynamic} [] 9) = []
   \<and> fst (deliver collectAll (occurrencesByUSR (SymIndex hierarchyIndex) ''c:m'' {Call}) [])
   \<and> foreachSymbolCallOccurrence 0 hierarchyIndex (occ methM {Call, Dynamic} [] 9) collectAll ([], [])
       = Some (True, [callX], [QueryOccurrences ''c:m'' {Call}, ReceiverCall callX])
   \<and> foreachSymbolCallOccurrence 0 hierarchyIndex (occ methM {Call, Dynamic} [] 9) collectOne ([], [])
       = Some (False, [callX], [QueryOccurrences ''c:m'' {Call}, ReceiverCall callX])"
  using no_receiver_class_direct_calls_only
          [of "occ methM {Call, Dynamic} [] 9" hierarchyIndex 0 collectAll "[]" "[]"]
        no_receiver_class_direct_calls_only
          [of "occ methM {Call, Dynamic} [] 9" hierarchyIndex 0 collectOne "[]" "[]"]
  by (simp add: hierarchyIndex_queries lookupTable_def hierarchyOccs_def receiverClasses_def
        collectedClasses_def relatedSymbols_def relationToUse_def example_defs)



text \<open>C2: for a callable, dynamic callee whose direct calls were delivered to completion and
  whose first receiver class (after extension rewriting) is a protocol, on a finite index
  and with enough fuel: \<^verbatim>\<open>getAllRelatedOccursImpl\<close> returns occurrences with pairwise
  distinct USRs whose USRs are exactly those reachable from the callee's USR through one or
  more \<^verbatim>\<open>RelationOverrideOf\<close> steps, issuing related-occurrence queries under that role
  only; the receiver then sees the \<^verbatim>\<open>Call\<close> occurrences of these USRs, in the order of the
  list, until it asks to stop; the result tells whether it never did; and the only further
  queries are \<^verbatim>\<open>Call\<close> queries for USRs of the list (no base-class or base-method
  closure is computed).\<close>

theorem protocol_fast_path:
  assumes callable: "isCallable (getSymbol Callee)"
    and dyn: "Dynamic \<in> getRoles Callee"
    and direct: "foreachSymbolOccurrenceByUSR Index (getUSR (getSymbol Callee)) {Call}
                   (callReceiver R) w = Some (True, s1, lg1)"
    and nonempty: "receiverClasses Index Callee \<noteq> []"
    and proto: "getSymbolKind (receiverClasses Index Callee ! 0) = Protocol"
    and fin: "finite (indexUSRs Index)"
    and fuel: "card (indexUSRs Index) < fuel"
  shows "\<exists>overrideSyms qs b s' ds lg'.
       getAllRelatedOccursImpl fuel Index (getSymbol Callee) {RelationOverrideOf}
         ([], lg1 @ extensionQueries (collectedClasses Callee))
         = Some (overrideSyms, lg1 @ extensionQueries (collectedClasses Callee) @ qs)
     \<and> set qs \<subseteq> range (\<lambda>u. QueryRelatedOccurrences u {RelationOverrideOf})
     \<and> distinct (map occUSR overrideSyms)
     \<and> occUSR ` set overrideSyms
         = {v. (getUSR (getSymbol Callee), v) \<in> (relatedStep Index {RelationOverrideOf})\<^sup>+}
     \<and> deliver R (concat (map (\<lambda>occur. occurrencesByUSR (SymIndex Index) (occUSR occur) {Call})
                             overrideSyms)) s1 = (b, s', ds)
     \<and> foreachSymbolCallOccurrence fuel Index Callee R w
         = Some (b, s', lg1 @ extensionQueries (collectedClasses Callee) @ qs @ lg')
     \<and> receivedOccurrences lg' = ds
     \<and> set (indexQueries lg') \<subseteq> (\<lambda>occur. QueryOccurrences (occUSR occur) {Call}) ` set overrideSyms"
proof -
  let ?lg2 = "lg1 @ extensionQueries (collectedClasses Callee)"
  let ?Sym = "getSymbol Callee"
  from getAllRelatedOccursImpl_total [OF fin fuel, of ?Sym "{RelationOverrideOf}" "[]" ?lg2]
  obtain overrideSyms lg3 where
    c: "getAllRelatedOccursImpl fuel Index ?Sym {RelationOverrideOf} ([], ?lg2)
          = Some (overrideSyms, lg3)" by blast
  from getAllRelatedOccursImpl_log [OF c] obtain qs where
    qs: "lg3 = ?lg2 @ qs" "set qs \<subseteq> range (\<lambda>u. QueryRelatedOccurrences u {RelationOverrideOf})"
    by blast
  from getAllRelatedOccursImpl_closure [OF c] have
    cl: "distinct (map occUSR overrideSyms)"
        "occUSR ` set overrideSyms
           = {v. (getUSR ?Sym, v) \<in> (relatedStep Index {RelationOverrideOf})\<^sup>+}"
    by simp_all
  obtain b s' ds where
    d: "deliver R (concat (map (\<lambda>occur. occurrencesByUSR (SymIndex Index) (occUSR occur) {Call})
                             overrideSyms)) s1 = (b, s', ds)"
    by (cases "deliver R (concat (map (\<lambda>occur. occurrencesByUSR (SymIndex Index) (occUSR occur) {Call})
                             overrideSyms)) s1") auto
  then have d': "deliver R (filter (\<lambda>x. True)
       (concat (map (\<lambda>occur. occurrencesByUSR (SymIndex Index) (occUSR occur) {Call})
                             overrideSyms))) s1 = (b, s', ds)"
    by simp
  from fanOut_deliver [of "callReceiver R" R "\<lambda>x. True" Index occUSR overrideSyms s1 b s' ds lg3,
        OF foreachUntilStop_callReceiver_filter d']
  obtain lg' where
    f: "foreachUntilStop overrideSyms
          (\<lambda>m. foreachSymbolOccurrenceByUSR Index (occUSR m) {Call} (callReceiver R)) (s1, lg3)
        = Some (b, s', lg3 @ lg')"
    and ro: "receivedOccurrences lg' = ds"
    and q: "set (indexQueries lg') \<subseteq> (\<lambda>m. QueryOccurrences (occUSR m) {Call}) ` set overrideSyms"
    by blast
  have "foreachSymbolCallOccurrence fuel Index Callee R w
          = protocolCallers fuel Index ?Sym R (s1, ?lg2)"
    using foreachSymbolCallOccurrence_dynamic [OF callable dyn direct, of fuel] nonempty proto
    by (simp add: dynamicCallers_eq Let_def)
  also have "\<dots> = Some (b, s', lg3 @ lg')"
    using c f by (simp add: protocolCallers_def occUSR_def del: getAllRelatedOccursImpl.simps)
  finally have run: "foreachSymbolCallOccurrence fuel Index Callee R w
      = Some (b, s', lg1 @ extensionQueries (collectedClasses Callee) @ qs @ lg')"
    using qs(1) by simp
  from c qs cl d run ro q show ?thesis by (simp del: getAllRelatedOccursImpl.simps)
qed


theorem protocol_fast_path_witness:
  "isCallable (getSymbol protoCallee)
   \<and> Dynamic \<in> getRoles protoCallee
   \<and> foreachSymbolOccurrenceByUSR protocolIndex (getUSR (getSymbol protoCallee)) {Call}
        (callReceiver collectAll) ([], [])
       = Some (True, [siteA], [QueryOccurrences ''c:m'' {Call}, ReceiverCall siteA])
   \<and> receiverClasses protocolIndex protoCallee = [protoP]
   \<and> getSymbolKind (receiverClasses protocolIndex protoCallee ! 0) = Protocol
   \<and> finite (indexUSRs protocolIndex)
   \<and> card (indexUSRs protocolIndex) < 8
   \<and> map_option fst
        (getAllRelatedOccursImpl 8 protocolIndex methM {RelationOverrideOf}
           ([], [QueryOccurrences ''c:m'' {Call}, ReceiverCall siteA]))
       = Some [defM1, defM2]
   \<and> map_option (\<lambda>r. (fst r, fst (snd r)))
        (foreachSymbolCallOccurrence 8 protocolIndex protoCallee collectAll ([], []))
       = Some (True, [siteA, siteB, siteC])
   \<and> map_option (\<lambda>r. (fst r, fst (snd r)))
        (foreachSymbolCallOccurrence 8 protocolIndex protoCallee (collectUpTo siteB) ([], []))
       = Some (False, [siteA, siteB])"
proof -
  have a: "isCallable (getSymbol protoCallee)" "Dynamic \<in> getRoles protoCallee"
    by (simp_all add: example_defs)
  have b: "foreachSymbolOccurrenceByUSR protocolIndex (getUSR (getSymbol protoCallee)) {Call}
        (callReceiver collectAll) ([], [])
       = Some (True, [siteA], [QueryOccurrences ''c:m'' {Call}, ReceiverCall siteA])"
    by (simp add: run_defs protocolIndex_queries protocolOccs_def example_defs)
  have c: "receiverClasses protocolIndex protoCallee = [protoP]"
    by (simp add: receiverClasses_def collectedClasses_def relationToUse_def relatedSymbols_def
          extendedType_def example_defs)
  then have d: "getSymbolKind (receiverClasses protocolIndex protoCallee ! 0) = Protocol"
    by (simp add: example_defs)
  have e: "map_option fst
        (getAllRelatedOccursImpl 8 protocolIndex methM {RelationOverrideOf}
           ([], [QueryOccurrences ''c:m'' {Call}, ReceiverCall siteA]))
       = Some [defM1, defM2]"
    by (simp add: run_defs protocolIndex_queries protocolRels_def example_defs)
  have f: "map_option (\<lambda>r. (fst r, fst (snd r)))
        (foreachSymbolCallOccurrence 8 protocolIndex protoCallee collectAll ([], []))
       = Some (True, [siteA, siteB, siteC])"
    by (simp add: protocol_run)
  have g: "map_option (\<lambda>r. (fst r, fst (snd r)))
        (foreachSymbolCallOccurrence 8 protocolIndex protoCallee (collectUpTo siteB) ([], []))
       = Some (False, [siteA, siteB])"
    by (simp add: protocol_run_stopped)
  from c have ne: "receiverClasses protocolIndex protoCallee \<noteq> []" by simp
  from protocol_fast_path [OF a b ne d protocolIndex_finite protocolIndex_card] c
       a b d protocolIndex_finite protocolIndex_card e f g
  show ?thesis by - (intro conjI, assumption+)
qed


text \<open>C1: for a callable, dynamic callee whose direct calls were delivered to completion and
  whose receiver-class set (after extension rewriting) is non-empty and does not start with a
  protocol, on a finite index and with enough fuel: the class list contains every receiver
  class, is closed under bases and holds nothing but receiver classes and symbols reached
  from them through the base relation; and the receiver sees, of the \<^verbatim>\<open>Call\<close>
  occurrences of the base methods in order, exactly those that are dynamic and either lack
  the received-by role or have a received-by related symbol whose USR is in the class list,
  until it asks to stop. An occurrence failing the filter never reaches the receiver.\<close>

theorem class_hierarchy_path:
  assumes callable: "isCallable (getSymbol Callee)"
    and dyn: "Dynamic \<in> getRoles Callee"
    and direct: "foreachSymbolOccurrenceByUSR Index (getUSR (getSymbol Callee)) {Call}
                   (callReceiver R) w = Some (True, s1, lg1)"
    and nonempty: "receiverClasses Index Callee \<noteq> []"
    and notproto: "getSymbolKind (receiverClasses Index Callee ! 0) \<noteq> Protocol"
    and fin: "finite (indexUSRs Index)"
    and fuel: "card (indexUSRs Index) < fuel"
  shows "\<exists>ClassSyms lg3 BaseMethodSyms lg4 b s' ds lg'.
       collectClassSyms fuel Index (receiverClasses Index Callee)
         (lg1 @ extensionQueries (collectedClasses Callee)) = Some (ClassSyms, lg3)
     \<and> set (receiverClasses Index Callee) \<subseteq> set ClassSyms
     \<and> basesClosed Index ClassSyms
     \<and> set ClassSyms \<subseteq> reach (baseCandidates Index) (receiverClasses Index Callee)
     \<and> getBaseMethodsOrClasses fuel Index (getSymbol Callee) lg3 = Some (BaseMethodSyms, lg4)
     \<and> deliver R
           (filter (admits ClassSyms)
              (concat (map (\<lambda>MethodSym.
                              occurrencesByUSR (SymIndex Index) (getUSR MethodSym) {Call})
                         BaseMethodSyms))) s1 = (b, s', ds)
     \<and> foreachSymbolCallOccurrence fuel Index Callee R w = Some (b, s', lg4 @ lg')
     \<and> receivedOccurrences lg' = ds
     \<and> set (indexQueries lg')
         \<subseteq> (\<lambda>MethodSym. QueryOccurrences (getUSR MethodSym) {Call}) ` set BaseMethodSyms"
proof -
  let ?lg2 = "lg1 @ extensionQueries (collectedClasses Callee)"
  let ?Sym = "getSymbol Callee"
  let ?C = "receiverClasses Index Callee"
  from collectClassSyms_total [OF fin fuel, of ?C ?lg2] obtain ClassSyms lg3 where
    c: "collectClassSyms fuel Index ?C ?lg2 = Some (ClassSyms, lg3)" by blast
  note cs = collectClassSyms_spec [OF c]
  from getBaseMethodsOrClassesImpl_total [OF fin fuel, of ?Sym "[]" lg3]
  obtain BaseMethodSyms lg4 where
    m: "getBaseMethodsOrClasses fuel Index ?Sym lg3 = Some (BaseMethodSyms, lg4)"
    unfolding getBaseMethodsOrClasses_def by blast
  obtain b s' ds where
    d: "deliver R
           (filter (admits ClassSyms)
              (concat (map (\<lambda>MethodSym.
                              occurrencesByUSR (SymIndex Index) (getUSR MethodSym) {Call})
                         BaseMethodSyms))) s1 = (b, s', ds)"
    by (cases "deliver R
           (filter (admits ClassSyms)
              (concat (map (\<lambda>MethodSym.
                              occurrencesByUSR (SymIndex Index) (getUSR MethodSym) {Call})
                         BaseMethodSyms))) s1") auto
  from fanOut_deliver [of "dispatchReceiver ClassSyms R" R "admits ClassSyms" Index getUSR
                          BaseMethodSyms s1 b s' ds lg4,
        OF foreachUntilStop_dispatchReceiver d]
  obtain lg' where
    f: "foreachUntilStop BaseMethodSyms
          (\<lambda>m. foreachSymbolOccurrenceByUSR Index (getUSR m) {Call}
                  (dispatchReceiver ClassSyms R)) (s1, lg4)
        = Some (b, s', lg4 @ lg')"
    and ro: "receivedOccurrences lg' = ds"
    and q: "set (indexQueries lg')
              \<subseteq> (\<lambda>m. QueryOccurrences (getUSR m) {Call}) ` set BaseMethodSyms"
    by blast
  have "foreachSymbolCallOccurrence fuel Index Callee R w
          = baseMethodCallers fuel Index ?Sym ClassSyms R (s1, lg3)"
    using foreachSymbolCallOccurrence_dynamic [OF callable dyn direct, of fuel] nonempty notproto c
    by (simp add: dynamicCallers_eq Let_def)
  also have "\<dots> = Some (b, s', lg4 @ lg')"
    using m f by (simp add: baseMethodCallers_def)
  finally have run: "foreachSymbolCallOccurrence fuel Index Callee R w = Some (b, s', lg4 @ lg')" .
  from c cs m d run ro q show ?thesis by simp
qed


theorem class_hierarchy_path_witness:
  "isCallable (getSymbol callX)
   \<and> Dynamic \<in> getRoles callX
   \<and> foreachSymbolOccurrenceByUSR hierarchyIndex (getUSR (getSymbol callX)) {Call}
        (callReceiver collectAll) ([], [])
       = Some (True, [callX], [QueryOccurrences ''c:m'' {Call}, ReceiverCall callX])
   \<and> receiverClasses hierarchyIndex callX = [classD]
   \<and> getSymbolKind (receiverClasses hierarchyIndex callX ! 0) \<noteq> Protocol
   \<and> finite (indexUSRs hierarchyIndex)
   \<and> card (indexUSRs hierarchyIndex) < 8
   \<and> map_option fst
        (collectClassSyms 8 hierarchyIndex [classD]
           [QueryOccurrences ''c:m'' {Call}, ReceiverCall callX])
       = Some [classB, classA, classD]
   \<and> map_option fst (getBaseMethodsOrClasses 8 hierarchyIndex methM []) = Some [methMB, methMA]
   \<and> filter (admits [classB, classA, classD]) [callY, callW, callS, callZ] = [callW, callZ]
   \<and> map_option (\<lambda>r. (fst r, fst (snd r)))
        (foreachSymbolCallOccurrence 8 hierarchyIndex callX collectAll ([], []))
       = Some (True, [callX, callW, callZ])
   \<and> map_option (\<lambda>r. (fst r, fst (snd r)))
        (foreachSymbolCallOccurrence 8 hierarchyIndex callX (collectUpTo callW) ([], []))
       = Some (False, [callX, callW])"
proof -
  have a: "isCallable (getSymbol callX)" "Dynamic \<in> getRoles callX"
    by (simp_all add: example_defs)
  have b: "foreachSymbolOccurrenceByUSR hierarchyIndex (getUSR (getSymbol callX)) {Call}
        (callReceiver collectAll) ([], [])
       = Some (True, [callX], [QueryOccurrences ''c:m'' {Call}, ReceiverCall callX])"
    by (simp add: run_defs hierarchyIndex_queries hierarchyOccs_def example_defs)
  have c: "receiverClasses hierarchyIndex callX = [classD]"
    by (simp add: receiverClasses_def collectedClasses_def relationToUse_def relatedSymbols_def
          extendedType_def example_defs)
  then have d: "getSymbolKind (receiverClasses hierarchyIndex callX ! 0) \<noteq> Protocol"
    by (simp add: example_defs)
  have e: "map_option fst
        (collectClassSyms 8 hierarchyIndex [classD]
           [QueryOccurrences ''c:m'' {Call}, ReceiverCall callX])
       = Some [classB, classA, classD]"
    by (simp add: run_defs hierarchyIndex_queries hierarchyRels_def example_defs)
  have f: "map_option fst (getBaseMethodsOrClasses 8 hierarchyIndex methM [])
             = Some [methMB, methMA]"
    by (simp add: run_defs hierarchyIndex_queries hierarchyOccs_def example_defs)
  have g: "filter (admits [classB, classA, classD]) [callY, callW, callS, callZ] = [callW, callZ]"
    by (simp add: admits_def relatedSymbols_def example_defs)
  have h: "map_option (\<lambda>r. (fst r, fst (snd r)))
        (foreachSymbolCallOccurrence 8 hierarchyIndex callX collectAll ([], []))
       = Some (True, [callX, callW, callZ])"
    by (simp add: hierarchy_run)
  have i: "map_option (\<lambda>r. (fst r, fst (snd r)))
        (foreachSymbolCallOccurrence 8 hierarchyIndex callX (collectUpTo callW) ([], []))
       = Some (False, [callX, callW])"
    by (simp add: hierarchy_run_stopped)
  from c have ne: "receiverClasses hierarchyIndex callX \<noteq> []" by simp
  from class_hierarchy_path [OF a b ne d hierarchyIndex_finite hierarchyIndex_card] c
       a b d hierarchyIndex_finite hierarchyIndex_card e f g h i
  show ?thesis by - (intro conjI, assumption+)
qed


section \<open>Properties of the path queries and of the delegate wrapper\<close>

text \<open>C9: two spellings of a path that the path sub-index canonicalizes to the same
  canonical path are indistinguishable to \<^verbatim>\<open>isKnownFile\<close>,
  \<^verbatim>\<open>foreachMainUnitContainingFile\<close>, \<^verbatim>\<open>foreachFileIncludingFile\<close> and
  \<^verbatim>\<open>foreachFileIncludedByFile\<close>, whatever the receiver and its state.\<close>

theorem path_queries_spelling_invariant:
  assumes "getCanonicalPath (PathIndex Index) p1 = getCanonicalPath (PathIndex Index) p2"
  shows "isKnownFile Index p1 = isKnownFile Index p2
       \<and> foreachMainUnitContainingFile Index p1 unitReceiver st1
           = foreachMainUnitContainingFile Index p2 unitReceiver st1
       \<and> foreachFileIncludingFile Index p1 sourceReceiver st2
           = foreachFileIncludingFile Index p2 sourceReceiver st2
       \<and> foreachFileIncludedByFile Index p1 targetReceiver st3
           = foreachFileIncludedByFile Index p2 targetReceiver st3"
  using assms
  by (simp add: isKnownFile_def foreachMainUnitContainingFile_def foreachFileIncludingFile_def
        foreachFileIncludedByFile_def)

theorem path_queries_spelling_invariant_witness:
  "getCanonicalPath (PathIndex directIndex) ''./a.h'' = getCanonicalPath (PathIndex directIndex) ''a.h''
   \<and> isKnownFile directIndex ''./a.h''
   \<and> isKnownFile directIndex ''a.h''
   \<and> foreachFileIncludingFile directIndex ''./a.h'' (\<lambda>x acc. Some (True, acc @ [x])) []
       = Some (True, [(CanonicalFilePath ''a.c'', 3)])
   \<and> foreachFileIncludingFile directIndex ''a.h'' (\<lambda>x acc. Some (True, acc @ [x])) []
       = Some (True, [(CanonicalFilePath ''a.c'', 3)])"
  using path_queries_spelling_invariant
          [of directIndex "''./a.h''" "''a.h''" "\<lambda>x acc. Some (True, acc @ [x])" "[]"
              "\<lambda>x acc. Some (True, acc @ [x])" "[]" "\<lambda>x acc. Some (True, acc @ [x])" "[]"]
  by (simp add: directIndex_def tableIndex_def examplePaths_def isKnownFile_def
        FilePathIndex_isKnownFile_def foreachFileIncludingFile_def
        FilePathIndex_foreachFileIncludingFile_def)

text \<open>C8: with a user delegate present, \<^verbatim>\<open>unitIsOutOfDate\<close> of the wrapper either runs the
  user delegate's method before it returns and leaves the queue as it was (synchronous), or
  appends one closure to the end of the queue and leaves the user delegate untouched; run
  later, that closure is the user delegate's method on the captured arguments with
  \<^verbatim>\<open>synchronous = false\<close>.\<close>

theorem unitIsOutOfDate_inline_or_enqueued:
  assumes "Other D = Some other"
  shows "(synchronous \<longrightarrow>
            AsyncIndexDelegate_unitIsOutOfDate unitInfo t hint synchronous (D, u)
              = (D, unitIsOutOfDate other unitInfo t hint True u))
       \<and> (\<not> synchronous \<longrightarrow>
            AsyncIndexDelegate_unitIsOutOfDate unitInfo t hint synchronous (D, u)
              = (D\<lparr>Queue := Queue D @ [\<lambda>u'. unitIsOutOfDate other unitInfo t hint False u']\<rparr>, u))"
  using assms by (simp add: AsyncIndexDelegate_unitIsOutOfDate_def dispatch_def)

theorem unitIsOutOfDate_inline_or_enqueued_witness:
  "Other exampleWrapper = Some recordingDelegate
   \<and> AsyncIndexDelegate_unitIsOutOfDate exampleUnit 7 (DependentFileOutOfDateTriggerHint ''a.h'')
        True (exampleWrapper, [])
       = (exampleWrapper, [(''u1'', True)])
   \<and> snd (AsyncIndexDelegate_unitIsOutOfDate exampleUnit 7
             (DependentFileOutOfDateTriggerHint ''a.h'') False (exampleWrapper, [])) = []
   \<and> map (\<lambda>task. task [])
        (Queue (fst (AsyncIndexDelegate_unitIsOutOfDate exampleUnit 7
                       (DependentFileOutOfDateTriggerHint ''a.h'') False (exampleWrapper, []))))
       = [[(''u1'', False)]]"
  using unitIsOutOfDate_inline_or_enqueued
          [of exampleWrapper recordingDelegate True exampleUnit 7
              "DependentFileOutOfDateTriggerHint ''a.h''" "[]"]
        unitIsOutOfDate_inline_or_enqueued
          [of exampleWrapper recordingDelegate False exampleUnit 7
              "DependentFileOutOfDateTriggerHint ''a.h''" "[]"]
  by (auto simp: exampleWrapper_def recordingDelegate_def exampleUnit_def)

end
